theory Spec2Isabelle
  imports Main
begin

section \<open>Python values, exceptions and sequence operations\<close>

text \<open>
  The Oware prototype is Python 2. A board is a tuple of Python integers, modelled as an
  \<open>int list\<close>; a house, a store or a move is an index into it, modelled as a \<open>nat\<close>
  (Python's negative indices, which count from the end, are outside the model). Every
  exception the modelled code can raise is a value: \<open>Inl e\<close> is "raises \<open>e\<close>",
  \<open>Inr v\<close> is "returns \<open>v\<close>".
\<close>

datatype error = IndexError | UnboundLocalError | ValueError

definition and_then :: "error + 'a \<Rightarrow> ('a \<Rightarrow> error + 'b) \<Rightarrow> error + 'b" where
  "and_then r f = (case r of Inl e \<Rightarrow> Inl e | Inr x \<Rightarrow> f x)"

text \<open>\<open>xs[i]\<close> as an expression and \<open>xs[i] = v\<close> as a statement: both raise IndexError
  when the index is not below the length.\<close>

definition getitem :: "'a list \<Rightarrow> nat \<Rightarrow> error + 'a" where
  "getitem xs i = (if i < length xs then Inr (xs ! i) else Inl IndexError)"

definition setitem :: "'a list \<Rightarrow> nat \<Rightarrow> 'a \<Rightarrow> error + 'a list" where
  "setitem xs i v = (if i < length xs then Inr (xs[i := v]) else Inl IndexError)"

text \<open>The slices \<open>xs[i:j]\<close> (both bounds non-negative literals) and \<open>xs[:k]\<close> for an
  integer \<open>k\<close> that may be negative, in which case it counts from the end. Slices never
  raise.\<close>

definition slice :: "'a list \<Rightarrow> nat \<Rightarrow> nat \<Rightarrow> 'a list" where
  "slice xs i j = drop i (take j xs)"

definition slice_to :: "'a list \<Rightarrow> int \<Rightarrow> 'a list" where
  "slice_to xs k = (if 0 \<le> k then take (nat k) xs else take (length xs - nat (- k)) xs)"

section \<open>The precomputed tables (machinery.py)\<close>

text \<open>\<open>xs * 5\<close> on a Python list.\<close>

definition times5 :: "'a list \<Rightarrow> 'a list" where
  "times5 xs = concat (replicate 5 xs)"

text \<open>For each house, the sequence of pits to sow, skipping the starting house.\<close>

definition SEED_DRILL :: "nat list list" where
  "SEED_DRILL = [
     take 48 (times5 [1..<12]),
     take 48 (times5 ([2..<12] @ [0..<1])),
     take 48 (times5 ([3..<12] @ [0..<2])),
     take 48 (times5 ([4..<12] @ [0..<3])),
     take 48 (times5 ([5..<12] @ [0..<4])),
     take 48 (times5 ([6..<12] @ [0..<5])),
     take 48 (times5 ([7..<12] @ [0..<6])),
     take 48 (times5 ([8..<12] @ [0..<7])),
     take 48 (times5 ([9..<12] @ [0..<8])),
     take 48 (times5 ([10..<12] @ [0..<9])),
     take 48 (times5 ([11..<12] @ [0..<10])),
     take 48 (times5 [0..<11])]"

text \<open>For each landing house, the pits to gather: \<open>range(h, -1, -1)\<close> for the southern
  houses, \<open>range(h, 5, -1)\<close> for the northern ones.\<close>

definition HARVESTER :: "nat list list" where
  "HARVESTER = [
     rev [0..<1], rev [0..<2], rev [0..<3], rev [0..<4], rev [0..<5], rev [0..<6],
     rev [6..<7], rev [6..<8], rev [6..<9], rev [6..<10], rev [6..<11], rev [6..<12]]"

fun xselections :: "int list \<Rightarrow> nat \<Rightarrow> int list list" where
  "xselections items 0 = [[]]"
| "xselections items (Suc l) =
     concat (map (\<lambda>x. map (\<lambda>selection. x # selection) (xselections items l)) items)"

definition xboard_positions :: "int list \<Rightarrow> nat \<Rightarrow> int list list" where
  "xboard_positions items l =
     map (\<lambda>combination. combination @ replicate (6 - l) 0) (xselections items l)"

text \<open>\<open>positions[k][n]\<close>: a dictionary whose values are never read, so only its keys are
  kept. \<open>k = 0\<close>: the first \<open>n + 1\<close> pits hold 1 or 2 seeds; \<open>k = 1\<close>: they hold 0 or 1;
  \<open>k = 2\<close>: the empty row.\<close>

definition positions :: "nat \<Rightarrow> nat \<Rightarrow> int list list" where
  "positions k n =
     (if k = 0 then xboard_positions [1, 2] (n + 1)
      else if k = 1 then xboard_positions [0, 1] (n + 1)
      else [[0, 0, 0, 0, 0, 0]])"

text \<open>One pass of the loop \<open>for seeds in range(1, 34)\<close> for a house \<open>move\<close>: the entry
  added to \<open>sdict\<close> under the key \<open>seeds\<close>, if any.\<close>

definition reaper_entry :: "nat \<Rightarrow> nat \<Rightarrow> (int \<times> nat \<times> int list list) option" where
  "reaper_entry move seeds =
     (let last_pit = SEED_DRILL ! move ! (seeds - 1) in
      if \<not> ((6 > last_pit) \<noteq> (move > 5)) then
        (let n = (if last_pit > 5 then last_pit - 6 else last_pit) in
         if seeds < 12 then Some (int seeds, last_pit, positions 0 n)
         else if last_pit = 11 \<or> last_pit = 5 then
           (if seeds < 23 then Some (int seeds, last_pit, positions 1 n)
            else Some (int seeds, last_pit, positions 2 n))
         else Some (int seeds, last_pit, []))
      else None)"

text \<open>\<open>REAPER[move]\<close> is a dictionary from seed counts to pairs; it is kept as the
  association list of its items, keys distinct by construction.\<close>

definition REAPER :: "(int \<times> nat \<times> int list list) list list" where
  "REAPER = map (\<lambda>move. List.map_filter (reaper_entry move) [1..<34]) [0..<12]"

section \<open>The rules (oware.py)\<close>

definition SOUTH :: int where "SOUTH = 1"
definition NORTH :: int where "NORTH = - 1"

definition EMPTY_ROW :: "int list" where
  "EMPTY_ROW = [0, 0, 0, 0, 0, 0]"

definition get_initial_board :: "int list" where
  "get_initial_board = replicate 12 4 @ [0, 0]"

definition get_final_board :: "int list \<Rightarrow> error + int list" where
  "get_final_board board =
     and_then (getitem board 12) (\<lambda>s.
     and_then (if s > 24 then Inr True
               else and_then (getitem board 13) (\<lambda>n. Inr (n > 24))) (\<lambda>won.
     if won then Inr board
     else
       and_then (getitem board 12) (\<lambda>s.
       and_then (getitem board 13) (\<lambda>n.
       and_then (Inr (s = n \<and> n = 24)) (\<lambda>tied.
       if tied then Inr board
       else
         and_then (getitem board 12) (\<lambda>s.
         and_then (getitem board 13) (\<lambda>n.
         Inr (replicate 12 0 @
              [sum_list (slice board 0 6) + s, sum_list (slice board 6 12) + n]))))))))"

definition is_capture :: "int list \<Rightarrow> nat \<Rightarrow> error + bool" where
  "is_capture board move =
     and_then (getitem board move) (\<lambda>seeds.
     and_then (getitem REAPER move) (\<lambda>sdict.
     case map_of sdict seeds of
       None \<Rightarrow> Inr False
     | Some (last_pit, positions') \<Rightarrow>
         and_then (getitem board last_pit) (\<lambda>v.
         if v > 2 then Inr False
         else if ((v = 0) \<noteq> (seeds < 12)) \<or> (11 < seeds \<and> seeds < 23 \<and> v = 1) then
           (if move < 6 then
              (if slice board 6 12 \<in> set positions' then Inr False else Inr True)
            else
              (if slice board 0 6 \<in> set positions' then Inr False else Inr True))
         else Inr False)))"

text \<open>The sowing loop \<open>for house in ...: new_board[house] += 1\<close>.\<close>

fun sow :: "int list \<Rightarrow> nat list \<Rightarrow> error + int list" where
  "sow new_board [] = Inr new_board"
| "sow new_board (house # houses) =
     and_then (getitem new_board house) (\<lambda>v.
     and_then (setitem new_board house (v + 1)) (\<lambda>new_board'.
     sow new_board' houses))"

text \<open>The gathering loop over \<open>HARVESTER[house]\<close>, for the mover's store \<open>store\<close> (12 in
  the first branch of the source, 13 in the second): it stops at the first pit that does not
  hold 2 or 3 seeds.\<close>

fun gather :: "int list \<Rightarrow> nat \<Rightarrow> nat list \<Rightarrow> error + int list" where
  "gather board_copy store [] = Inr board_copy"
| "gather board_copy store (house # houses) =
     and_then (getitem board_copy house) (\<lambda>v.
     if \<not> (4 > v \<and> v > 1) then Inr board_copy
     else
       and_then (getitem board_copy store) (\<lambda>s.
       and_then (getitem board_copy house) (\<lambda>v'.
       and_then (setitem board_copy store (s + v')) (\<lambda>board_copy'.
       and_then (setitem board_copy' house 0) (\<lambda>board_copy''.
       gather board_copy'' store houses)))))"

text \<open>After the sowing loop the variable \<open>house\<close> is the last pit sown; it is unbound when
  the loop body never ran, and reading it then raises UnboundLocalError.\<close>

definition compute_board :: "int list \<Rightarrow> nat \<Rightarrow> error + int list" where
  "compute_board board move =
     and_then (setitem board move 0) (\<lambda>new_board0.
     and_then (getitem SEED_DRILL move) (\<lambda>drill.
     and_then (getitem board move) (\<lambda>seeds.
     and_then (sow new_board0 (slice_to drill seeds)) (\<lambda>new_board.
     if slice_to drill seeds = [] then Inl UnboundLocalError
     else
       (let house = last (slice_to drill seeds) in
        and_then (getitem new_board house) (\<lambda>v.
        if 4 > v \<and> v > 1 then
          (if move < 6 \<and> house > 5 then
             and_then (getitem HARVESTER house) (\<lambda>chain.
             and_then (gather new_board 12 chain) (\<lambda>board_copy.
             if slice board_copy 6 12 \<noteq> EMPTY_ROW then Inr board_copy
             else Inr new_board))
           else if move > 5 \<and> house < 6 then
             and_then (getitem HARVESTER house) (\<lambda>chain.
             and_then (gather new_board 13 chain) (\<lambda>board_copy.
             if slice board_copy 0 6 \<noteq> EMPTY_ROW then Inr board_copy
             else Inr new_board))
           else Inr new_board)
        else Inr new_board))))))"

text \<open>The loop \<open>for house in (...): if 0 < board[house] > lim - house: return True\<close> of
  \<open>has_legal_moves\<close>, with \<open>lim\<close> 5 for SOUTH and 11 for NORTH.\<close>

fun reaching_house :: "int list \<Rightarrow> nat \<Rightarrow> nat list \<Rightarrow> error + bool" where
  "reaching_house board lim [] = Inr False"
| "reaching_house board lim (house # houses) =
     and_then (getitem board house) (\<lambda>v.
     if 0 < v \<and> v > int lim - int house then Inr True
     else reaching_house board lim houses)"

definition has_legal_moves :: "int list \<Rightarrow> int \<Rightarrow> error + bool" where
  "has_legal_moves board turn =
     (if turn = SOUTH then
        (if slice board 0 6 \<noteq> EMPTY_ROW then
           (if slice board 6 12 \<noteq> EMPTY_ROW then Inr True
            else reaching_house board 5 [5, 4, 3, 2, 1, 0])
         else Inr False)
      else
        (if slice board 6 12 \<noteq> EMPTY_ROW then
           (if slice board 0 6 \<noteq> EMPTY_ROW then Inr True
            else reaching_house board 11 [11, 10, 9, 8, 7, 6])
         else Inr False))"

definition is_end :: "int list \<Rightarrow> int \<Rightarrow> error + bool" where
  "is_end board turn =
     and_then (getitem board 12) (\<lambda>s.
     and_then (if s > 24 then Inr True
               else and_then (getitem board 13) (\<lambda>n. Inr (n > 24))) (\<lambda>won.
     if won then Inr True
     else and_then (has_legal_moves board turn) (\<lambda>legal.
          if legal then Inr False else Inr True)))"

definition get_score :: "int list \<Rightarrow> error + int" where
  "get_score board =
     and_then (getitem board 12) (\<lambda>s.
     and_then (getitem board 13) (\<lambda>n. Inr (s - n)))"

definition get_final_score :: "int list \<Rightarrow> error + int" where
  "get_final_score board =
     and_then (getitem board 12) (\<lambda>s.
     if s > 24 then Inr 10000
     else
       and_then (getitem board 13) (\<lambda>n.
       if n > 24 then Inr (- 10000)
       else
         and_then (getitem board 12) (\<lambda>s.
         (let score = sum_list (slice board 0 6) + s in
          if score > 24 then Inr 10000
          else if score < 24 then Inr (- 10000)
          else Inr 0))))"

text \<open>A loop \<open>for move in (...): if cond(move): yield move\<close> of a generator. The generator
  is modelled by the list of everything it yields; an exception raised while it runs
  replaces the whole list.\<close>

fun yield_if :: "(nat \<Rightarrow> error + bool) \<Rightarrow> nat list \<Rightarrow> error + nat list" where
  "yield_if cond [] = Inr []"
| "yield_if cond (move # moves) =
     and_then (cond move) (\<lambda>y.
     and_then (yield_if cond moves) (\<lambda>rest.
     Inr (if y then move # rest else rest)))"

text \<open>The four conditions of \<open>xlegal_moves\<close>:
  \<open>0 < board[move] > lim - move and is_capture(board, move)\<close>,
  \<open>0 < board[move] < 3 and not is_capture(board, move)\<close>,
  \<open>board[move] > 2 and not is_capture(board, move)\<close> and
  \<open>0 < board[move] > lim - move and not is_capture(board, move)\<close>.\<close>

definition reaching_capture :: "int list \<Rightarrow> nat \<Rightarrow> nat \<Rightarrow> error + bool" where
  "reaching_capture board lim move =
     and_then (getitem board move) (\<lambda>v.
     if 0 < v \<and> v > int lim - int move then is_capture board move else Inr False)"

definition vulnerable_quiet :: "int list \<Rightarrow> nat \<Rightarrow> error + bool" where
  "vulnerable_quiet board move =
     and_then (getitem board move) (\<lambda>v.
     if 0 < v \<and> v < 3 then and_then (is_capture board move) (\<lambda>c. Inr (\<not> c))
     else Inr False)"

definition large_quiet :: "int list \<Rightarrow> nat \<Rightarrow> error + bool" where
  "large_quiet board move =
     and_then (getitem board move) (\<lambda>v.
     if v > 2 then and_then (is_capture board move) (\<lambda>c. Inr (\<not> c))
     else Inr False)"

definition reaching_quiet :: "int list \<Rightarrow> nat \<Rightarrow> nat \<Rightarrow> error + bool" where
  "reaching_quiet board lim move =
     and_then (getitem board move) (\<lambda>v.
     if 0 < v \<and> v > int lim - int move then
       and_then (is_capture board move) (\<lambda>c. Inr (\<not> c))
     else Inr False)"

definition xlegal_moves :: "int list \<Rightarrow> int \<Rightarrow> error + nat list" where
  "xlegal_moves board turn =
     (if turn = SOUTH then
        and_then (yield_if (reaching_capture board 5) [5, 4, 3, 2, 1, 0]) (\<lambda>captures.
        if slice board 6 12 \<noteq> EMPTY_ROW then
          and_then (yield_if (vulnerable_quiet board) [0, 1, 2, 3, 4, 5]) (\<lambda>small.
          and_then (yield_if (large_quiet board) [0, 1, 2, 3, 4, 5]) (\<lambda>large.
          Inr (captures @ small @ large)))
        else
          and_then (yield_if (reaching_quiet board 5) [0, 1, 2, 3, 4, 5]) (\<lambda>feeding.
          Inr (captures @ feeding)))
      else
        and_then (yield_if (reaching_capture board 11) [11, 10, 9, 8, 7, 6]) (\<lambda>captures.
        if slice board 0 6 \<noteq> EMPTY_ROW then
          and_then (yield_if (vulnerable_quiet board) [6, 7, 8, 9, 10, 11]) (\<lambda>small.
          and_then (yield_if (large_quiet board) [6, 7, 8, 9, 10, 11]) (\<lambda>large.
          Inr (captures @ small @ large)))
        else
          and_then (yield_if (reaching_quiet board 11) [6, 7, 8, 9, 10, 11]) (\<lambda>feeding.
          Inr (captures @ feeding))))"

section \<open>The search (engine.py)\<close>

text \<open>The fields of \<open>Engine\<close> that \<open>_search\<close> reads or writes. \<open>_line\<close> is a dictionary
  whose values (\<open>None\<close>, \<open>True\<close>) are never read: only its key set is kept.\<close>

record engine =
  aborted :: bool
  line :: "(int list \<times> int) set"

definition INFINITY :: int where "INFINITY = 1000"

text \<open>The loop over the moves in \<open>_search\<close>. \<open>self_search\<close> is the recursive call
  \<open>self._search\<close>; it returns \<open>None\<close> when it does not return, otherwise the value or
  the exception together with the engine's new state.\<close>

fun search_moves ::
  "(int list \<Rightarrow> int \<Rightarrow> int \<Rightarrow> int \<Rightarrow> int \<Rightarrow> engine \<Rightarrow> ((error + int) \<times> engine) option) \<Rightarrow>
   int list \<Rightarrow> int \<Rightarrow> int \<Rightarrow> int \<Rightarrow> int \<Rightarrow> nat list \<Rightarrow> engine \<Rightarrow>
   ((error + int) \<times> engine) option" where
  "search_moves self_search board turn alpha beta depth [] st = Some (Inr alpha, st)"
| "search_moves self_search board turn alpha beta depth (cmove # moves) st =
     (case compute_board board cmove of
        Inl e \<Rightarrow> Some (Inl e, st)
      | Inr cboard \<Rightarrow>
          (case self_search cboard (- turn) (- beta) (- alpha) (depth - 1) st of
             None \<Rightarrow> None
           | Some (Inl e, st') \<Rightarrow> Some (Inl e, st')
           | Some (Inr r, st') \<Rightarrow>
               (let score = - r in
                if score \<ge> beta then Some (Inr beta, st')
                else if score > alpha then
                  search_moves self_search board turn score beta depth moves st'
                else search_moves self_search board turn alpha beta depth moves st')))"

text \<open>\<open>Engine._search\<close>. The depth is a Python integer that is only compared with zero,
  so a call with a negative depth stops at a terminal or repeated position only; the
  first argument bounds the nesting of calls, and \<open>None\<close> means that the bound was
  reached. With the bound 1 any recursive call gives \<open>None\<close>.\<close>

primrec search ::
  "nat \<Rightarrow> int list \<Rightarrow> int \<Rightarrow> int \<Rightarrow> int \<Rightarrow> int \<Rightarrow> engine \<Rightarrow> ((error + int) \<times> engine) option" where
  "search 0 board turn alpha beta depth st = None"
| "search (Suc fuel) board turn alpha beta depth st =
     (if aborted st then Some (Inr (- INFINITY), st)
      else
        (case is_end board turn of
           Inl e \<Rightarrow> Some (Inl e, st)
         | Inr ended \<Rightarrow>
             if ended \<or> (board, turn) \<in> line st then
               Some (and_then (get_final_score board) (\<lambda>s. Inr (turn * s)), st)
             else if depth = 0 then
               Some (and_then (get_score board) (\<lambda>s. Inr (turn * s)), st)
             else
               (let st1 = st\<lparr>line := insert (board, turn) (line st)\<rparr> in
                case xlegal_moves board turn of
                  Inl e \<Rightarrow> Some (Inl e, st1)
                | Inr moves \<Rightarrow>
                    (case search_moves (search fuel) board turn alpha beta depth moves st1 of
                       None \<Rightarrow> None
                     | Some (Inl e, st2) \<Rightarrow> Some (Inl e, st2)
                     | Some (Inr a, st2) \<Rightarrow>
                         Some (Inr a, st2\<lparr>line := line st2 - {(board, turn)}\<rparr>)))))"

section \<open>Notation (oware.py)\<close>

subsection \<open>Python's \<open>str\<close>, \<open>int\<close>, \<open>join\<close> and \<open>split\<close>\<close>

definition digit_char :: "nat \<Rightarrow> char" where
  "digit_char d = ''0123456789'' ! d"

function digits :: "nat \<Rightarrow> string" where
  "digits n = (if n < 10 then [digit_char n] else digits (n div 10) @ [digit_char (n mod 10)])"
  by pat_completeness auto
termination
  by (relation "measure (\<lambda>n. n)") auto

text \<open>\<open>str(i)\<close> for an integer.\<close>

definition str :: "int \<Rightarrow> string" where
  "str i = (if i < 0 then CHR ''-'' # digits (nat (- i)) else digits (nat i))"

definition is_digit :: "char \<Rightarrow> bool" where
  "is_digit c = (48 \<le> (of_char c :: nat) \<and> (of_char c :: nat) \<le> 57)"

text \<open>\<open>int(s)\<close> on a string of decimal digits; any other string is taken to raise
  ValueError (the strings Python accepts beyond digits, with signs, blanks or
  underscores, never reach it: the pattern of \<open>to_position\<close> lets only digits through).\<close>

definition int_of_str :: "string \<Rightarrow> error + int" where
  "int_of_str s =
     (if s \<noteq> [] \<and> list_all is_digit s
      then Inr (foldl (\<lambda>acc c. 10 * acc + (int (of_char c) - 48)) 0 s)
      else Inl ValueError)"

text \<open>\<open>sep.join(parts)\<close> and \<open>s.split(c)\<close> for a one-character separator.\<close>

fun join :: "string \<Rightarrow> string list \<Rightarrow> string" where
  "join sep [] = []"
| "join sep [x] = x"
| "join sep (x # y # ys) = x @ sep @ join sep (y # ys)"

fun split :: "char \<Rightarrow> string \<Rightarrow> string list" where
  "split c [] = [[]]"
| "split c (x # xs) =
     (if x = c then [] # split c xs
      else (case split c xs of [] \<Rightarrow> [[x]] | w # ws \<Rightarrow> (x # w) # ws))"

subsection \<open>Regular expressions as \<open>re.match\<close> runs them\<close>

text \<open>The constructs the two patterns of the source use: a character, a range
  \<open>[a-b]\<close>, concatenation, alternation \<open>|\<close>, the greedy \<open>?\<close> and \<open>*\<close>, the empty
  pattern, and \<open>$\<close>.\<close>

datatype regex =
  Chr char
| Range char char
| Seq regex regex
| Alt regex regex
| Opt regex
| Star regex
| Eps
| Eos

text \<open>\<open>rmatch r s\<close> lists, in the order in which the backtracking matcher tries them,
  what is left of \<open>s\<close> after each way of matching \<open>r\<close> at its start. \<open>$\<close> matches at
  the end of the string and before a newline that ends it. The test on lengths under
  \<open>*\<close> only stops the iteration of a body that matched the empty string.\<close>

function rmatch :: "regex \<Rightarrow> string \<Rightarrow> string list" where
  "rmatch (Chr c) s = (case s of [] \<Rightarrow> [] | x # xs \<Rightarrow> if x = c then [xs] else [])"
| "rmatch (Range lo hi) s =
     (case s of [] \<Rightarrow> []
      | x # xs \<Rightarrow>
          if (of_char lo :: nat) \<le> of_char x \<and> (of_char x :: nat) \<le> of_char hi
          then [xs] else [])"
| "rmatch (Seq r1 r2) s = concat (map (rmatch r2) (rmatch r1 s))"
| "rmatch (Alt r1 r2) s = rmatch r1 s @ rmatch r2 s"
| "rmatch (Opt r) s = rmatch r s @ [s]"
| "rmatch (Star r) s =
     concat (map (\<lambda>s'. if length s' < length s then rmatch (Star r) s' else [])
                 (rmatch r s)) @ [s]"
| "rmatch Eps s = [s]"
| "rmatch Eos s = (if s = [] \<or> s = [CHR 0x0A] then [s] else [])"
  by pat_completeness auto
termination
  by (relation "measures [\<lambda>(r, s). size r, \<lambda>(r, s). length s]") auto

text \<open>\<open>r{n}\<close>.\<close>

primrec repeated :: "nat \<Rightarrow> regex \<Rightarrow> regex" where
  "repeated 0 r = Eps"
| "repeated (Suc n) r = Seq r (repeated n r)"

text \<open>\<open>re.match\<close> of a pattern \<open>(g1)(g2)tail\<close> with two groups: \<open>None\<close>, or the strings
  \<open>group(1)\<close> and \<open>group(2)\<close> of the first match found.\<close>

definition match_groups :: "regex \<Rightarrow> regex \<Rightarrow> regex \<Rightarrow> string \<Rightarrow> (string \<times> string) option" where
  "match_groups g1 g2 tail s =
     (case concat (map (\<lambda>s1. concat (map (\<lambda>s2. map (\<lambda>s3. (s1, s2)) (rmatch tail s2))
                                          (rmatch g2 s1)))
                       (rmatch g1 s)) of
        [] \<Rightarrow> None
      | (s1, s2) # _ \<Rightarrow>
          Some (take (length s - length s1) s, take (length s1 - length s2) s1))"

subsection \<open>Boards, moves and their notation\<close>

definition to_board_notation :: "int list \<Rightarrow> int \<Rightarrow> string" where
  "to_board_notation board turn =
     join ''-'' (map str board @ [if turn = SOUTH then ''S'' else ''N''])"

definition to_move :: "string \<Rightarrow> error + nat" where
  "to_move notation =
     (if length notation = 1 then
        (let c = (of_char (hd notation) :: nat) in
         if 65 \<le> c \<and> c \<le> 70 then Inr (c - 65)
         else if 97 \<le> c \<and> c \<le> 102 then Inr (c - 91)
         else Inl ValueError)
      else Inl ValueError)"

text \<open>The generator expression \<open>to_move(n) for n in notation\<close>: Python iterates a string
  by one-character strings.\<close>

fun to_move_each :: "string \<Rightarrow> error + nat list" where
  "to_move_each [] = Inr []"
| "to_move_each (n # ns) =
     and_then (to_move [n]) (\<lambda>move.
     and_then (to_move_each ns) (\<lambda>moves. Inr (move # moves)))"

text \<open>The pattern \<open>([A-F]([a-f][A-F])*[a-f]?)|([a-f]([A-F][a-f])*[A-F]?)$\<close>: alternation
  binds weakest, so \<open>$\<close> belongs to the second alternative.\<close>

definition moves_pattern :: regex where
  "moves_pattern =
     Alt (Seq (Range CHR ''A'' CHR ''F'')
           (Seq (Star (Seq (Range CHR ''a'' CHR ''f'') (Range CHR ''A'' CHR ''F'')))
                (Opt (Range CHR ''a'' CHR ''f''))))
         (Seq (Seq (Range CHR ''a'' CHR ''f'')
                (Seq (Star (Seq (Range CHR ''A'' CHR ''F'') (Range CHR ''a'' CHR ''f'')))
                     (Opt (Range CHR ''A'' CHR ''F''))))
              Eos)"

definition to_moves :: "string \<Rightarrow> error + nat list" where
  "to_moves notation =
     (if rmatch moves_pattern notation = [] then Inl ValueError
      else to_move_each notation)"

text \<open>The pattern \<open>((?:[1-4]?[0-9]-){14})(S|N)$\<close>, by its two groups.\<close>

definition houses_pattern :: regex where
  "houses_pattern =
     repeated 14 (Seq (Opt (Range CHR ''1'' CHR ''4''))
                   (Seq (Range CHR ''0'' CHR ''9'') (Chr CHR ''-'')))"

definition side_pattern :: regex where
  "side_pattern = Alt (Chr CHR ''S'') (Chr CHR ''N'')"

fun int_each :: "string list \<Rightarrow> error + int list" where
  "int_each [] = Inr []"
| "int_each (seeds # houses) =
     and_then (int_of_str seeds) (\<lambda>v.
     and_then (int_each houses) (\<lambda>board. Inr (v # board)))"

definition to_position :: "string \<Rightarrow> error + (int list \<times> int)" where
  "to_position notation =
     (case match_groups houses_pattern side_pattern Eos notation of
        None \<Rightarrow> Inl ValueError
      | Some (group1, group2) \<Rightarrow>
          (let turn = (if ''N'' = group2 then NORTH else SOUTH) in
           case split CHR ''-'' group1 of
             [] \<Rightarrow> Inl IndexError
           | houses \<Rightarrow>
               and_then (int_each (butlast houses)) (\<lambda>board. Inr (board, turn))))"

section \<open>Auxiliary definitions for the statements\<close>

text \<open>What \<open>REAPER[move]\<close> holds under a key, read off the loop that builds it.\<close>

definition reaper_lookup :: "nat \<Rightarrow> int \<Rightarrow> (nat \<times> int list list) option" where
  "reaper_lookup move seeds =
     (if 1 \<le> seeds \<and> seeds < 34 then map_option snd (reaper_entry move (nat seeds)) else None)"

text \<open>\<open>is_capture\<close> with the second disjunct of its test,
  \<open>11 < board[move] < 23 and board[last] == 1\<close>, removed: the variant that the
  specification's note on the predicate declares equivalent.\<close>

definition is_capture_first_disjunct :: "int list \<Rightarrow> nat \<Rightarrow> error + bool" where
  "is_capture_first_disjunct board move =
     and_then (getitem board move) (\<lambda>seeds.
     and_then (getitem REAPER move) (\<lambda>sdict.
     case map_of sdict seeds of
       None \<Rightarrow> Inr False
     | Some (last_pit, positions') \<Rightarrow>
         and_then (getitem board last_pit) (\<lambda>v.
         if v > 2 then Inr False
         else if (v = 0) \<noteq> (seeds < 12) then
           (if move < 6 then
              (if slice board 6 12 \<in> set positions' then Inr False else Inr True)
            else
              (if slice board 0 6 \<in> set positions' then Inr False else Inr True))
         else Inr False)))"

text \<open>The mover's store, the houses of the mover's opponent, and the test of
  \<open>compute_board\<close> that the last pit sown lies on the opponent's side.\<close>

definition store :: "nat \<Rightarrow> nat" where
  "store move = (if move < 6 then 12 else 13)"

definition opponent_row :: "nat \<Rightarrow> nat list" where
  "opponent_row move = (if move < 6 then [6..<12] else [0..<6])"

definition lands_opposite :: "nat \<Rightarrow> nat \<Rightarrow> bool" where
  "lands_opposite move house = ((move < 6 \<and> house > 5) \<or> (move > 5 \<and> house < 6))"

text \<open>The harvest as the specification words it: walking the chain, the pits gathered are
  those holding 2 or 3 seeds up to the first that does not; a house of the row is left at
  zero when it was gathered or was empty already.\<close>

definition harvest_walk :: "int list \<Rightarrow> nat list \<Rightarrow> nat list" where
  "harvest_walk board chain = takeWhile (\<lambda>pit. board ! pit = 2 \<or> board ! pit = 3) chain"

definition row_after_walk :: "int list \<Rightarrow> nat list \<Rightarrow> nat list \<Rightarrow> int list" where
  "row_after_walk board chain row =
     map (\<lambda>house. if house \<in> set (harvest_walk board chain) then 0 else board ! house) row"

text \<open>How many times the sowing loop runs (the slice holds at most the 48 entries of the
  table), and the pit it ends in, when it runs at all.\<close>

definition seeds_sown :: "int list \<Rightarrow> nat \<Rightarrow> nat" where
  "seeds_sown board move = min (nat (board ! move)) 48"

definition landing :: "int list \<Rightarrow> nat \<Rightarrow> nat" where
  "landing board move = SEED_DRILL ! move ! (seeds_sown board move - 1)"

text \<open>The positions reachable from the initial board, either side moving first, by moves
  that \<open>xlegal_moves\<close> yields for the side to move.\<close>

inductive reachable :: "int list \<Rightarrow> int \<Rightarrow> bool" where
  initial: "turn = SOUTH \<or> turn = NORTH \<Longrightarrow> reachable get_initial_board turn"
| move: "reachable board turn \<Longrightarrow> xlegal_moves board turn = Inr moves \<Longrightarrow>
         cmove \<in> set moves \<Longrightarrow> compute_board board cmove = Inr cboard \<Longrightarrow>
         reachable cboard (- turn)"

text \<open>The rows that \<open>REAPER\<close> stores for a move that lands on the opponent's side, and
  the seeds that each of the opponent's houses receives in the full laps of the sowing.\<close>

definition forbidden_rows :: "int list \<Rightarrow> nat \<Rightarrow> int list list" where
  "forbidden_rows board move =
     (let n = (if landing board move > 5 then landing board move - 6 else landing board move) in
      if seeds_sown board move < 12 then positions 0 n
      else if landing board move = 11 \<or> landing board move = 5 then
        (if seeds_sown board move < 23 then positions 1 n else positions 2 n)
      else [])"

definition laps :: "int list \<Rightarrow> nat \<Rightarrow> nat" where
  "laps board move = (seeds_sown board move - 1) div 11"

text \<open>The part \<open>[1-4]?[0-9]-\<close> of the position pattern, which \<open>houses_pattern\<close>
  repeats.\<close>

definition house_pattern :: regex where
  "house_pattern =
     Seq (Opt (Range CHR ''1'' CHR ''4'')) (Seq (Range CHR ''0'' CHR ''9'') (Chr CHR ''-''))"

section \<open>Basic facts\<close>

lemma and_then_Inr [simp]: "and_then (Inr x) f = f x"
  by (simp add: and_then_def)

lemma and_then_Inl [simp]: "and_then (Inl e) f = Inl e"
  by (simp add: and_then_def)

lemma getitem_in [simp]: "i < length xs \<Longrightarrow> getitem xs i = Inr (xs ! i)"
  by (simp add: getitem_def)

lemma setitem_in [simp]: "i < length xs \<Longrightarrow> setitem xs i v = Inr (xs[i := v])"
  by (simp add: setitem_def)

lemma list14:
  assumes "length (b :: 'a list) = 14"
  shows "b = [b ! 0, b ! 1, b ! 2, b ! 3, b ! 4, b ! 5, b ! 6, b ! 7, b ! 8, b ! 9, b ! 10,
              b ! 11, b ! 12, b ! 13]"
  using assms by (auto simp: list_eq_iff_nth_eq nth_Cons' less_Suc_eq numeral_eq_Suc)

lemma slice_to_nonempty: "1 \<le> k \<Longrightarrow> xs \<noteq> [] \<Longrightarrow> slice_to xs k \<noteq> []"
  by (cases xs) (auto simp: slice_to_def take_Cons')

lemma set_slice_to: "set (slice_to xs k) \<subseteq> set xs"
  by (auto simp: slice_to_def dest: in_set_takeD)

subsection \<open>The tables\<close>

lemma length_SEED_DRILL: "length SEED_DRILL = 12"
  by (simp add: SEED_DRILL_def)

lemma length_HARVESTER: "length HARVESTER = 12"
  by (simp add: HARVESTER_def)

lemma length_REAPER: "length REAPER = 12"
  by (simp add: REAPER_def)

lemma drill_table:
  "list_all (\<lambda>m. length (SEED_DRILL ! m) = 48 \<and>
                 list_all (\<lambda>h. h < 12 \<and> h \<noteq> m) (SEED_DRILL ! m)) [0..<12]"
  by code_simp

lemma drill_facts:
  assumes "m < 12"
  shows "length (SEED_DRILL ! m) = 48"
    and "\<And>h. h \<in> set (SEED_DRILL ! m) \<Longrightarrow> h < 12 \<and> h \<noteq> m"
  using drill_table assms by (auto simp: list_all_iff)

lemma harvester_table: "list_all (\<lambda>h. list_all (\<lambda>p. p < 12) (HARVESTER ! h)) [0..<12]"
  by code_simp

lemma harvester_bound: "h < 12 \<Longrightarrow> p \<in> set (HARVESTER ! h) \<Longrightarrow> p < 12"
  using harvester_table by (auto simp: list_all_iff)

lemma reaper_entry_key: "reaper_entry m x = Some (k, v) \<Longrightarrow> k = int x"
  by (auto simp: reaper_entry_def Let_def split: if_splits)

lemma map_of_reaper_entries:
  "map_of (List.map_filter (reaper_entry m) xs) k =
   (if k \<in> int ` set xs then map_option snd (reaper_entry m (nat k)) else None)"
proof (induction xs)
  case Nil
  then show ?case by (simp add: List.map_filter_simps)
next
  case (Cons x xs)
  show ?case
  proof (cases "reaper_entry m x")
    case None
    then show ?thesis using Cons by (auto simp: List.map_filter_simps)
  next
    case (Some e)
    obtain k' v where e: "e = (k', v)" by (cases e)
    have "k' = int x" using Some e reaper_entry_key by blast
    then show ?thesis using Cons Some e by (auto simp: List.map_filter_simps)
  qed
qed

lemma map_of_REAPER:
  assumes "m < 12"
  shows "map_of (REAPER ! m) k = reaper_lookup m k"
proof -
  have "REAPER ! m = List.map_filter (reaper_entry m) [1..<34]"
    using assms by (simp add: REAPER_def)
  moreover have "k \<in> int ` set [1..<34] \<longleftrightarrow> 1 \<le> k \<and> k < 34"
  proof
    assume "k \<in> int ` set [1..<34]"
    then show "1 \<le> k \<and> k < 34" by auto
  next
    assume "1 \<le> k \<and> k < 34"
    then have "nat k \<in> set [1..<34]" "k = int (nat k)" by auto
    then show "k \<in> int ` set [1..<34]" by blast
  qed
  ultimately show ?thesis
    by (simp only: map_of_reaper_entries reaper_lookup_def)
qed

text \<open>\<open>is_capture\<close> with the dictionary lookup resolved; it also serves to evaluate the
  function without building the whole table.\<close>

lemma is_capture_code [code]:
  "is_capture board move =
     and_then (getitem board move) (\<lambda>seeds.
     if move < 12 then
       (case reaper_lookup move seeds of
          None \<Rightarrow> Inr False
        | Some (last_pit, positions') \<Rightarrow>
            and_then (getitem board last_pit) (\<lambda>v.
            if v > 2 then Inr False
            else if ((v = 0) \<noteq> (seeds < 12)) \<or> (11 < seeds \<and> seeds < 23 \<and> v = 1) then
              (if move < 6 then
                 (if slice board 6 12 \<in> set positions' then Inr False else Inr True)
               else
                 (if slice board 0 6 \<in> set positions' then Inr False else Inr True))
            else Inr False))
     else Inl IndexError)"
proof (cases "move < 12")
  case True
  then show ?thesis
    by (simp add: is_capture_def length_REAPER map_of_REAPER cong: option.case_cong)
next
  case False
  then show ?thesis
    by (cases "getitem board move") (simp_all add: is_capture_def getitem_def length_REAPER)
qed

lemma is_capture_first_disjunct_code [code]:
  "is_capture_first_disjunct board move =
     and_then (getitem board move) (\<lambda>seeds.
     if move < 12 then
       (case reaper_lookup move seeds of
          None \<Rightarrow> Inr False
        | Some (last_pit, positions') \<Rightarrow>
            and_then (getitem board last_pit) (\<lambda>v.
            if v > 2 then Inr False
            else if (v = 0) \<noteq> (seeds < 12) then
              (if move < 6 then
                 (if slice board 6 12 \<in> set positions' then Inr False else Inr True)
               else
                 (if slice board 0 6 \<in> set positions' then Inr False else Inr True))
            else Inr False))
     else Inl IndexError)"
proof (cases "move < 12")
  case True
  then show ?thesis
    by (simp add: is_capture_first_disjunct_def length_REAPER map_of_REAPER
             cong: option.case_cong)
next
  case False
  then show ?thesis
    by (cases "getitem board move")
       (simp_all add: is_capture_first_disjunct_def getitem_def length_REAPER)
qed

subsection \<open>The two loops of \<open>compute_board\<close> return\<close>

lemma sow_total:
  "\<forall>h \<in> set hs. h < length nb \<Longrightarrow> \<exists>nb'. sow nb hs = Inr nb' \<and> length nb' = length nb"
proof (induction hs arbitrary: nb)
  case Nil
  then show ?case by simp
next
  case (Cons h hs)
  then show ?case
    using Cons.IH [of "nb[h := nb ! h + 1]"] by simp
qed

lemma gather_total:
  "\<forall>h \<in> set hs. h < length bc \<Longrightarrow> st < length bc \<Longrightarrow>
   \<exists>bc'. gather bc st hs = Inr bc' \<and> length bc' = length bc"
proof (induction hs arbitrary: bc)
  case Nil
  then show ?case by simp
next
  case (Cons h hs)
  then show ?case
    using Cons.IH [of "bc[st := bc ! st + bc ! h, h := 0]"] by simp
qed

subsection \<open>The terminal tests return\<close>

lemma reaching_house_total:
  "\<forall>h \<in> set hs. h < length b \<Longrightarrow> \<exists>r. reaching_house b lim hs = Inr r"
  by (induction hs) auto

lemma has_legal_moves_total:
  assumes "length b = 14"
  shows "\<exists>r. has_legal_moves b t = Inr r"
  using assms reaching_house_total [of "[5, 4, 3, 2, 1, 0]" b 5]
    reaching_house_total [of "[11, 10, 9, 8, 7, 6]" b 11]
  by (auto simp: has_legal_moves_def)

lemma is_end_total:
  assumes "length b = 14"
  shows "\<exists>r. is_end b t = Inr r"
  using assms has_legal_moves_total [OF assms, of t]
  by (auto simp: is_end_def)

lemma get_final_score_total:
  assumes "length b = 14"
  shows "\<exists>s. get_final_score b = Inr s"
  using assms by (simp add: get_final_score_def Let_def)

subsection \<open>What the two loops compute\<close>

lemma sow_result:
  "\<forall>h \<in> set hs. h < length nb \<Longrightarrow>
   \<exists>nb'. sow nb hs = Inr nb' \<and> length nb' = length nb \<and>
         (\<forall>i < length nb. nb' ! i = nb ! i + int (count_list hs i))"
proof (induction hs arbitrary: nb)
  case Nil
  then show ?case by simp
next
  case (Cons h hs)
  let ?nb = "nb[h := nb ! h + 1]"
  have "\<forall>h \<in> set hs. h < length ?nb" using Cons.prems by simp
  from Cons.IH [OF this] obtain nb' where nb': "sow ?nb hs = Inr nb'"
    "length nb' = length nb" "\<forall>i < length nb. nb' ! i = ?nb ! i + int (count_list hs i)"
    by auto
  have "sow nb (h # hs) = Inr nb'" using Cons.prems nb'(1) by simp
  moreover have "\<forall>i < length nb. nb' ! i = nb ! i + int (count_list (h # hs) i)"
    using nb'(3) Cons.prems by (auto simp: nth_list_update)
  ultimately show ?case using nb'(2) by blast
qed

lemma in_23: "(1 < (x::int) \<and> x < 4) \<longleftrightarrow> (x = 2 \<or> x = 3)"
  by auto

lemma gather_result:
  "distinct hs \<Longrightarrow> \<forall>h \<in> set hs. h < length bc \<Longrightarrow> st < length bc \<Longrightarrow> st \<notin> set hs \<Longrightarrow>
   \<exists>bc'. gather bc st hs = Inr bc' \<and> length bc' = length bc \<and>
     (\<forall>i < length bc. i \<noteq> st \<longrightarrow>
        bc' ! i = (if i \<in> set (takeWhile (\<lambda>p. bc ! p = 2 \<or> bc ! p = 3) hs) then 0 else bc ! i)) \<and>
     bc' ! st = bc ! st + sum_list (map ((!) bc) (takeWhile (\<lambda>p. bc ! p = 2 \<or> bc ! p = 3) hs))"
proof (induction hs arbitrary: bc)
  case Nil
  then show ?case by simp
next
  case (Cons h hs)
  show ?case
  proof (cases "bc ! h = 2 \<or> bc ! h = 3")
    case False
    then have "\<not> (1 < bc ! h \<and> bc ! h < 4)" by auto
    then have "gather bc st (h # hs) = Inr bc" using Cons.prems by auto
    then show ?thesis using False by simp
  next
    case True
    let ?bc = "bc[st := bc ! st + bc ! h, h := 0]"
    have neq: "h \<noteq> st" using Cons.prems by auto
    have same: "\<And>p. p \<in> set hs \<Longrightarrow> ?bc ! p = bc ! p"
    proof -
      fix p assume "p \<in> set hs"
      then have "p \<noteq> h" "p \<noteq> st" using Cons.prems by auto
      then show "?bc ! p = bc ! p" by simp
    qed
    have tw: "takeWhile (\<lambda>p. ?bc ! p = 2 \<or> ?bc ! p = 3) hs =
              takeWhile (\<lambda>p. bc ! p = 2 \<or> bc ! p = 3) hs"
      by (rule takeWhile_cong) (simp_all add: same)
    let ?tw = "takeWhile (\<lambda>p. bc ! p = 2 \<or> bc ! p = 3) hs"
    have twsub: "set ?tw \<subseteq> set hs" by (auto dest: set_takeWhileD)
    have "distinct hs" "\<forall>h \<in> set hs. h < length ?bc" "st < length ?bc" "st \<notin> set hs"
      using Cons.prems by auto
    from Cons.IH [OF this] obtain bc' where bc': "gather ?bc st hs = Inr bc'"
      "length bc' = length bc"
      "\<forall>i < length bc. i \<noteq> st \<longrightarrow> bc' ! i = (if i \<in> set ?tw then 0 else ?bc ! i)"
      "bc' ! st = ?bc ! st + sum_list (map ((!) ?bc) ?tw)"
      unfolding tw by auto
    have g: "gather bc st (h # hs) = Inr bc'"
      using True Cons.prems bc'(1) by auto
    have map_eq: "map ((!) ?bc) ?tw = map ((!) bc) ?tw"
      using twsub same by (intro map_cong) auto
    have st: "bc' ! st = bc ! st + sum_list (map ((!) bc) (takeWhile (\<lambda>p. bc ! p = 2 \<or> bc ! p = 3) (h # hs)))"
      using bc'(4) True neq Cons.prems unfolding map_eq by simp
    have others: "\<forall>i < length bc. i \<noteq> st \<longrightarrow>
        bc' ! i = (if i \<in> set (takeWhile (\<lambda>p. bc ! p = 2 \<or> bc ! p = 3) (h # hs)) then 0 else bc ! i)"
      using bc'(3) True neq by (auto simp: nth_list_update)
    show ?thesis using g bc'(2) st others by blast
  qed
qed

lemma sum_list_update_int:
  "i < length xs \<Longrightarrow> sum_list (xs[i := v]) = sum_list xs - xs ! i + (v :: int)"
  by (induction xs arbitrary: i) (auto simp: nth_Cons' split: nat.splits)

lemma sow_sum:
  "\<forall>h \<in> set hs. h < length nb \<Longrightarrow> sow nb hs = Inr nb' \<Longrightarrow>
   sum_list nb' = sum_list nb + int (length hs)"
proof (induction hs arbitrary: nb)
  case Nil
  then show ?case by simp
next
  case (Cons h hs)
  let ?nb = "nb[h := nb ! h + 1]"
  have "sow ?nb hs = Inr nb'" using Cons.prems by simp
  moreover have "\<forall>h \<in> set hs. h < length ?nb" using Cons.prems by simp
  ultimately have "sum_list nb' = sum_list ?nb + int (length hs)"
    using Cons.IH by blast
  then show ?case using Cons.prems by (simp add: sum_list_update_int)
qed

lemma gather_sum:
  "\<forall>h \<in> set hs. h < length bc \<Longrightarrow> st < length bc \<Longrightarrow> st \<notin> set hs \<Longrightarrow>
   gather bc st hs = Inr bc' \<Longrightarrow> sum_list bc' = sum_list bc"
proof (induction hs arbitrary: bc)
  case Nil
  then show ?case by simp
next
  case (Cons h hs)
  show ?case
  proof (cases "1 < bc ! h \<and> bc ! h < 4")
    case False
    then show ?thesis using Cons.prems by auto
  next
    case True
    let ?bc = "bc[st := bc ! st + bc ! h, h := 0]"
    have "gather ?bc st hs = Inr bc'" using True Cons.prems by auto
    moreover have "\<forall>h \<in> set hs. h < length ?bc" "st < length ?bc" "st \<notin> set hs"
      using Cons.prems by auto
    ultimately have "sum_list bc' = sum_list ?bc" using Cons.IH by blast
    moreover have "sum_list ?bc = sum_list bc"
      using Cons.prems by (simp add: sum_list_update_int)
    ultimately show ?thesis by simp
  qed
qed

text \<open>Sowing \<open>n\<close> seeds from house \<open>m\<close> and landing on the opponent's side puts
  \<open>(n - 1) div 11\<close> seeds in each of the opponent's houses for the full laps, and one more
  in those up to the landing house.\<close>

lemma lap_table:
  "list_all (\<lambda>m. list_all (\<lambda>n.
      lands_opposite m (SEED_DRILL ! m ! (n - 1)) \<longrightarrow>
      list_all (\<lambda>j. count_list (take n (SEED_DRILL ! m)) j =
                    (n - 1) div 11 + (if j \<le> SEED_DRILL ! m ! (n - 1) then 1 else 0))
               (opponent_row m)) [1..<49]) [0..<12]"
  by code_simp

subsection \<open>The shape of \<open>compute_board\<close>\<close>

lemma slice_nth: "j \<le> length xs \<Longrightarrow> slice xs i j = map ((!) xs) [i..<j]"
  by (auto simp: slice_def list_eq_iff_nth_eq)

lemma harvester_chain_table:
  "list_all (\<lambda>h. HARVESTER ! h = rev [(if h < 6 then 0 else 6)..<Suc h]) [0..<12]"
  by code_simp

lemma harvester_chain:
  "h < 12 \<Longrightarrow> HARVESTER ! h = rev [(if h < 6 then 0 else 6)..<Suc h]"
  using harvester_chain_table by (simp add: list_all_iff)

lemma last_take:
  assumes "0 < n" and "n \<le> length xs"
  shows "last (take n xs) = xs ! (n - 1)"
proof -
  have "take n xs \<noteq> []" using assms by auto
  then have "last (take n xs) = take n xs ! (length (take n xs) - 1)"
    by (rule last_conv_nth)
  then show ?thesis using assms by (simp add: min_def)
qed

lemma slice_to_drill:
  assumes "m < 12" and "1 \<le> b ! m"
  shows "slice_to (SEED_DRILL ! m) (b ! m) = take (seeds_sown b m) (SEED_DRILL ! m)"
    and "1 \<le> seeds_sown b m" and "seeds_sown b m \<le> 48"
    and "last (take (seeds_sown b m) (SEED_DRILL ! m)) = landing b m"
    and "take (seeds_sown b m) (SEED_DRILL ! m) \<noteq> []"
    and "landing b m < 12" and "landing b m \<noteq> m"
proof -
  have len: "length (SEED_DRILL ! m) = 48" by (rule drill_facts(1) [OF assms(1)])
  show "slice_to (SEED_DRILL ! m) (b ! m) = take (seeds_sown b m) (SEED_DRILL ! m)"
    using assms(2) len by (simp add: slice_to_def seeds_sown_def min_def)
  show n1: "1 \<le> seeds_sown b m" using assms(2) by (simp add: seeds_sown_def)
  show n48: "seeds_sown b m \<le> 48" by (simp add: seeds_sown_def)
  show lst: "last (take (seeds_sown b m) (SEED_DRILL ! m)) = landing b m"
    unfolding landing_def using n1 n48 len by (intro last_take) auto
  show ne: "take (seeds_sown b m) (SEED_DRILL ! m) \<noteq> []"
    using n1 len by auto
  have "landing b m \<in> set (SEED_DRILL ! m)"
    unfolding landing_def using n1 n48 len by (intro nth_mem) auto
  then show "landing b m < 12" "landing b m \<noteq> m"
    using drill_facts(2) [OF assms(1)] by auto
qed

lemma count_list_0: "x \<notin> set xs \<Longrightarrow> count_list xs x = 0"
  by (simp add: count_list_0_iff)

lemma sown_board:
  assumes "length b = 14" and "m < 12" and "1 \<le> b ! m"
  shows "\<exists>nb. sow (b[m := 0]) (slice_to (SEED_DRILL ! m) (b ! m)) = Inr nb \<and> length nb = 14 \<and>
           (\<forall>i < 14. nb ! i = (if i = m then 0 else b ! i) +
                              int (count_list (take (seeds_sown b m) (SEED_DRILL ! m)) i)) \<and>
           nb ! 12 = b ! 12 \<and> nb ! 13 = b ! 13 \<and> nb ! m = 0"
proof -
  let ?hs = "take (seeds_sown b m) (SEED_DRILL ! m)"
  have hs: "slice_to (SEED_DRILL ! m) (b ! m) = ?hs"
    by (rule slice_to_drill(1) [OF assms(2,3)])
  have bound: "\<And>h. h \<in> set ?hs \<Longrightarrow> h < 12 \<and> h \<noteq> m"
    using drill_facts(2) [OF assms(2)] by (blast dest: in_set_takeD)
  then have "\<forall>h \<in> set ?hs. h < length (b[m := 0])" using assms(1) by fastforce
  from sow_result [OF this] obtain nb where nb: "sow (b[m := 0]) ?hs = Inr nb"
    "length nb = 14" "\<forall>i < 14. nb ! i = (b[m := 0]) ! i + int (count_list ?hs i)"
    using assms(1) by auto
  have upd: "\<And>i. i < 14 \<Longrightarrow> (b[m := 0]) ! i = (if i = m then 0 else b ! i)"
    using assms(1) by (simp add: nth_list_update)
  have "12 \<notin> set ?hs" "13 \<notin> set ?hs" "m \<notin> set ?hs"
    using bound by force+
  then have c12: "count_list ?hs 12 = 0" "count_list ?hs 13 = 0" "count_list ?hs m = 0"
    by (simp_all add: count_list_0)
  show ?thesis
    using nb upd c12 assms(2) unfolding hs by auto
qed

lemma compute_board_unfold:
  assumes "length b = 14" and "m < 12" and "1 \<le> b ! m"
    and "sow (b[m := 0]) (slice_to (SEED_DRILL ! m) (b ! m)) = Inr nb" and "length nb = 14"
    and "gather nb (store m) (HARVESTER ! landing b m) = Inr bc" and "length bc = 14"
  shows "compute_board b m =
         Inr (if (nb ! landing b m = 2 \<or> nb ! landing b m = 3) \<and>
                 lands_opposite m (landing b m) \<and>
                 map ((!) bc) (opponent_row m) \<noteq> EMPTY_ROW
              then bc else nb)"
proof -
  note d = slice_to_drill [OF assms(2,3)]
  have v: "(nb ! landing b m < 4 \<and> 1 < nb ! landing b m) \<longleftrightarrow>
           (nb ! landing b m = 2 \<or> nb ! landing b m = 3)" by auto
  have pre: "compute_board b m =
     and_then (getitem nb (landing b m)) (\<lambda>v.
        if 4 > v \<and> v > 1 then
          (if m < 6 \<and> landing b m > 5 then
             and_then (getitem HARVESTER (landing b m)) (\<lambda>chain.
             and_then (gather nb 12 chain) (\<lambda>board_copy.
             if slice board_copy 6 12 \<noteq> EMPTY_ROW then Inr board_copy
             else Inr nb))
           else if m > 5 \<and> landing b m < 6 then
             and_then (getitem HARVESTER (landing b m)) (\<lambda>chain.
             and_then (gather nb 13 chain) (\<lambda>board_copy.
             if slice board_copy 0 6 \<noteq> EMPTY_ROW then Inr board_copy
             else Inr nb))
           else Inr nb)
        else Inr nb)"
    using assms(1,2,4) d(5)
    by (simp add: compute_board_def length_SEED_DRILL Let_def d(1) d(4))
  show ?thesis
  proof (cases "m < 6")
    case True
    then show ?thesis
      unfolding pre using assms(5,6,7) d(6) v
      by (simp add: length_HARVESTER store_def lands_opposite_def opponent_row_def slice_nth)
  next
    case False
    then show ?thesis
      unfolding pre using assms(5,6,7) d(6) v
      by (simp add: length_HARVESTER store_def lands_opposite_def opponent_row_def slice_nth
            not_less)
  qed
qed

subsection \<open>Harvest, conservation and the reachable positions\<close>

lemma harvested_board:
  assumes "length nb = 14" and "h < 12"
  shows "\<exists>bc. gather nb (store m) (HARVESTER ! h) = Inr bc \<and> length bc = 14 \<and>
           (\<forall>i < 14. i \<noteq> store m \<longrightarrow> bc ! i =
               (if i \<in> set (harvest_walk nb (HARVESTER ! h)) then 0 else nb ! i)) \<and>
           bc ! store m =
             nb ! store m + sum_list (map ((!) nb) (harvest_walk nb (HARVESTER ! h))) \<and>
           sum_list bc = sum_list nb"
proof -
  let ?ch = "HARVESTER ! h"
  have ch: "?ch = rev [(if h < 6 then 0 else 6)..<Suc h]"
    by (rule harvester_chain [OF assms(2)])
  have dist: "distinct ?ch" unfolding ch by simp
  have bound: "\<forall>p \<in> set ?ch. p < length nb"
    using harvester_bound [OF assms(2)] assms(1) by fastforce
  have st: "store m < length nb" using assms(1) by (simp add: store_def)
  have notin: "store m \<notin> set ?ch"
    using harvester_bound [OF assms(2), of "store m"] by (auto simp: store_def)
  from gather_result [OF dist bound st notin] obtain bc where bc:
    "gather nb (store m) ?ch = Inr bc" "length bc = length nb"
    "\<forall>i < length nb. i \<noteq> store m \<longrightarrow>
       bc ! i = (if i \<in> set (takeWhile (\<lambda>p. nb ! p = 2 \<or> nb ! p = 3) ?ch) then 0 else nb ! i)"
    "bc ! store m = nb ! store m +
       sum_list (map ((!) nb) (takeWhile (\<lambda>p. nb ! p = 2 \<or> nb ! p = 3) ?ch))"
    by blast
  have "sum_list bc = sum_list nb"
    using gather_sum [OF bound st notin bc(1)] .
  then show ?thesis
    using bc assms(1) by (auto simp: harvest_walk_def)
qed

lemma map_opponent_row:
  "map f (opponent_row m) = EMPTY_ROW \<longleftrightarrow> (\<forall>j \<in> set (opponent_row m). f j = 0)"
  by (auto simp: opponent_row_def EMPTY_ROW_def upt_rec numeral_eq_Suc)

lemma opponent_row_bound: "j \<in> set (opponent_row m) \<Longrightarrow> j < 12 \<and> j \<noteq> store m"
  by (auto simp: opponent_row_def store_def split: if_splits)

lemma harvest_walk_values:
  "p \<in> set (harvest_walk nb ch) \<Longrightarrow> p \<in> set ch \<and> (nb ! p = 2 \<or> nb ! p = 3)"
  unfolding harvest_walk_def by (auto dest: set_takeWhileD)

lemma sum_list_nonneg_int: "\<forall>x \<in> set xs. (0::int) \<le> x \<Longrightarrow> 0 \<le> sum_list xs"
  by (induction xs) auto

lemma nth_le_sum_list_int:
  "\<forall>x \<in> set xs. (0::int) \<le> x \<Longrightarrow> i < length xs \<Longrightarrow> xs ! i \<le> sum_list xs"
proof (induction xs arbitrary: i)
  case Nil
  then show ?case by simp
next
  case (Cons x xs)
  have nn: "0 \<le> sum_list xs" "0 \<le> x"
    using Cons.prems(1) sum_list_nonneg_int [of xs] by auto
  show ?case
  proof (cases i)
    case 0
    then show ?thesis using nn by simp
  next
    case (Suc k)
    then have "xs ! k \<le> sum_list xs" using Cons.IH [of k] Cons.prems by simp
    then show ?thesis using Suc nn by simp
  qed
qed

lemma compute_board_invariant:
  assumes "length b = 14" and "m < 12" and "1 \<le> b ! m" and "b ! m \<le> 48"
    and "\<forall>x \<in> set b. 0 \<le> x"
  shows "\<exists>b'. compute_board b m = Inr b' \<and> length b' = 14 \<and> sum_list b' = sum_list b \<and>
              (\<forall>x \<in> set b'. 0 \<le> x)"
proof -
  note d = slice_to_drill [OF assms(2,3)]
  let ?hs = "take (seeds_sown b m) (SEED_DRILL ! m)"
  obtain nb where nb: "sow (b[m := 0]) (slice_to (SEED_DRILL ! m) (b ! m)) = Inr nb"
    "length nb = 14"
    "\<forall>i < 14. nb ! i = (if i = m then 0 else b ! i) + int (count_list ?hs i)"
    using sown_board [OF assms(1,2,3)] by blast
  have bound: "\<forall>h \<in> set ?hs. h < length (b[m := 0])"
    using drill_facts(2) [OF assms(2)] assms(1) by (fastforce dest: in_set_takeD)
  have "seeds_sown b m = nat (b ! m)"
    using assms(4) by (simp add: seeds_sown_def)
  then have "length ?hs = nat (b ! m)"
    using assms(4) drill_facts(1) [OF assms(2)] by simp
  then have len_hs: "int (length ?hs) = b ! m"
    using assms(3) by simp
  have "sum_list nb = sum_list (b[m := 0]) + int (length ?hs)"
    using sow_sum [OF bound] nb(1) unfolding d(1) by simp
  then have sum_nb: "sum_list nb = sum_list b"
    using assms(1,2) len_hs by (simp add: sum_list_update_int)
  have pos_b: "\<And>i. i < 14 \<Longrightarrow> 0 \<le> b ! i"
    using assms(1,5) by (simp add: all_set_conv_all_nth)
  have pos_nb: "\<And>i. i < 14 \<Longrightarrow> 0 \<le> nb ! i"
    using nb(3) pos_b by auto
  obtain bc where bc: "gather nb (store m) (HARVESTER ! landing b m) = Inr bc"
    "length bc = 14"
    "\<forall>i < 14. i \<noteq> store m \<longrightarrow> bc ! i =
        (if i \<in> set (harvest_walk nb (HARVESTER ! landing b m)) then 0 else nb ! i)"
    "bc ! store m = nb ! store m +
        sum_list (map ((!) nb) (harvest_walk nb (HARVESTER ! landing b m)))"
    "sum_list bc = sum_list nb"
    using harvested_board [OF nb(2) d(6), of m] by blast
  have "0 \<le> sum_list (map ((!) nb) (harvest_walk nb (HARVESTER ! landing b m)))"
    by (rule sum_list_nonneg_int) (auto dest: harvest_walk_values)
  then have "0 \<le> bc ! store m"
    using bc(4) pos_nb [of "store m"] by (simp add: store_def)
  then have pos_bc: "\<And>i. i < 14 \<Longrightarrow> 0 \<le> bc ! i"
    using bc(3) pos_nb by (metis order_refl)
  have "\<forall>x \<in> set nb. 0 \<le> x" "\<forall>x \<in> set bc. 0 \<le> x"
    using pos_nb pos_bc nb(2) bc(2) by (simp_all add: all_set_conv_all_nth)
  then show ?thesis
    using compute_board_unfold [OF assms(1,2,3) nb(1,2) bc(1,2)] nb(2) bc(2,5) sum_nb
    by simp
qed

lemma yield_if_member:
  "yield_if c xs = Inr ys \<Longrightarrow> y \<in> set ys \<Longrightarrow> y \<in> set xs \<and> c y = Inr True"
proof (induction xs arbitrary: ys)
  case Nil
  then show ?case by simp
next
  case (Cons x xs)
  obtain r where r: "c x = Inr r"
    using Cons.prems(1) by (cases "c x") auto
  obtain rest where rest: "yield_if c xs = Inr rest"
    using Cons.prems(1) r by (cases "yield_if c xs") auto
  have ys: "ys = (if r then x # rest else rest)"
    using Cons.prems(1) r rest by simp
  show ?case
  proof (cases "y \<in> set rest")
    case True
    then show ?thesis using Cons.IH [OF rest] by simp
  next
    case False
    then have "r" "y = x" using ys Cons.prems(2) by (auto split: if_splits)
    then show ?thesis using r by simp
  qed
qed

lemma and_then_InrE:
  assumes "and_then r f = Inr y"
  obtains x where "r = Inr x" and "f x = Inr y"
  using assms by (cases r) auto

lemma yielded_has_seed:
  assumes "length b = 14" and "yield_if c xs = Inr ys" and "m \<in> set ys"
    and "\<forall>x \<in> set xs. x < 12"
    and "c = reaching_capture b lim \<or> c = vulnerable_quiet b \<or> c = large_quiet b \<or>
         c = reaching_quiet b lim"
  shows "m < 12 \<and> 1 \<le> b ! m"
proof -
  have mem: "m \<in> set xs" and c: "c m = Inr True"
    using yield_if_member [OF assms(2,3)] by auto
  have m: "m < 12" using mem assms(4) by auto
  then have "getitem b m = Inr (b ! m)" using assms(1) by simp
  then have "1 \<le> b ! m"
    using c assms(5)
    by (auto simp: reaching_capture_def vulnerable_quiet_def large_quiet_def
          reaching_quiet_def split: if_splits)
  then show ?thesis using m by simp
qed

lemma xlegal_moves_member:
  assumes "length b = 14" and "xlegal_moves b t = Inr ms" and "m \<in> set ms"
  shows "m < 12 \<and> 1 \<le> b ! m"
proof (cases "t = SOUTH")
  case True
  from assms(2) obtain captures where cap:
    "yield_if (reaching_capture b 5) [5, 4, 3, 2, 1, 0] = Inr captures"
    and rest: "(if slice b 6 12 \<noteq> EMPTY_ROW then
          and_then (yield_if (vulnerable_quiet b) [0, 1, 2, 3, 4, 5]) (\<lambda>small.
          and_then (yield_if (large_quiet b) [0, 1, 2, 3, 4, 5]) (\<lambda>large.
          Inr (captures @ small @ large)))
        else
          and_then (yield_if (reaching_quiet b 5) [0, 1, 2, 3, 4, 5]) (\<lambda>feeding.
          Inr (captures @ feeding))) = Inr ms"
    unfolding xlegal_moves_def using True by (auto elim!: and_then_InrE)
  show ?thesis
  proof (cases "slice b 6 12 \<noteq> EMPTY_ROW")
    case True
    from rest True obtain small large where
      "yield_if (vulnerable_quiet b) [0, 1, 2, 3, 4, 5] = Inr small"
      "yield_if (large_quiet b) [0, 1, 2, 3, 4, 5] = Inr large"
      "ms = captures @ small @ large"
      by (auto elim!: and_then_InrE)
    then show ?thesis
      using assms(3) cap yielded_has_seed [OF assms(1), where lim = 5]
      by (fastforce simp del: yield_if.simps)
  next
    case False
    from rest False obtain feeding where
      "yield_if (reaching_quiet b 5) [0, 1, 2, 3, 4, 5] = Inr feeding"
      "ms = captures @ feeding"
      by (auto elim!: and_then_InrE)
    then show ?thesis
      using assms(3) cap yielded_has_seed [OF assms(1), where lim = 5]
      by (fastforce simp del: yield_if.simps)
  qed
next
  case False
  from assms(2) obtain captures where cap:
    "yield_if (reaching_capture b 11) [11, 10, 9, 8, 7, 6] = Inr captures"
    and rest: "(if slice b 0 6 \<noteq> EMPTY_ROW then
          and_then (yield_if (vulnerable_quiet b) [6, 7, 8, 9, 10, 11]) (\<lambda>small.
          and_then (yield_if (large_quiet b) [6, 7, 8, 9, 10, 11]) (\<lambda>large.
          Inr (captures @ small @ large)))
        else
          and_then (yield_if (reaching_quiet b 11) [6, 7, 8, 9, 10, 11]) (\<lambda>feeding.
          Inr (captures @ feeding))) = Inr ms"
    unfolding xlegal_moves_def using False by (auto elim!: and_then_InrE)
  show ?thesis
  proof (cases "slice b 0 6 \<noteq> EMPTY_ROW")
    case True
    from rest True obtain small large where
      "yield_if (vulnerable_quiet b) [6, 7, 8, 9, 10, 11] = Inr small"
      "yield_if (large_quiet b) [6, 7, 8, 9, 10, 11] = Inr large"
      "ms = captures @ small @ large"
      by (auto elim!: and_then_InrE)
    then show ?thesis
      using assms(3) cap yielded_has_seed [OF assms(1), where lim = 11]
      by (fastforce simp del: yield_if.simps)
  next
    case False
    from rest False obtain feeding where
      "yield_if (reaching_quiet b 11) [6, 7, 8, 9, 10, 11] = Inr feeding"
      "ms = captures @ feeding"
      by (auto elim!: and_then_InrE)
    then show ?thesis
      using assms(3) cap yielded_has_seed [OF assms(1), where lim = 11]
      by (fastforce simp del: yield_if.simps)
  qed
qed

lemma reachable_invariant:
  "reachable b t \<Longrightarrow> length b = 14 \<and> sum_list b = 48 \<and> (\<forall>x \<in> set b. 0 \<le> x)"
proof (induction rule: reachable.induct)
  case (initial turn)
  then show ?case by (simp add: get_initial_board_def sum_list_replicate)
next
  case (move board turn moves cmove cboard)
  then have inv: "length board = 14" "sum_list board = 48" "\<forall>x \<in> set board. 0 \<le> x"
    by auto
  have m: "cmove < 12" "1 \<le> board ! cmove"
    using xlegal_moves_member [OF inv(1) move.hyps(2,3)] by auto
  have "board ! cmove \<le> 48"
    using nth_le_sum_list_int [OF inv(3), of cmove] inv(1,2) m(1) by simp
  from compute_board_invariant [OF inv(1) m this inv(3)] show ?case
    using move.hyps(4) inv(2) by auto
qed

subsection \<open>The table of forbidden rows and the row after a harvest\<close>

lemma set_xselections:
  "set (xselections items l) = {xs. length xs = l \<and> set xs \<subseteq> set items}"
proof (induction l)
  case 0
  then show ?case by auto
next
  case (Suc l)
  show ?case
  proof (intro set_eqI iffI)
    fix xs assume "xs \<in> set (xselections items (Suc l))"
    then show "xs \<in> {xs. length xs = Suc l \<and> set xs \<subseteq> set items}"
      using Suc by auto
  next
    fix xs assume "xs \<in> {xs. length xs = Suc l \<and> set xs \<subseteq> set items}"
    then obtain y ys where "xs = y # ys" "length ys = l" "y \<in> set items" "set ys \<subseteq> set items"
      by (auto simp: length_Suc_conv)
    then show "xs \<in> set (xselections items (Suc l))"
      using Suc by auto
  qed
qed

lemma in_xboard_positions:
  assumes "l \<le> 6" and "length r = 6"
  shows "r \<in> set (xboard_positions items l) \<longleftrightarrow>
         (\<forall>i < 6. if i < l then r ! i \<in> set items else r ! i = 0)"
proof
  assume "r \<in> set (xboard_positions items l)"
  then obtain c where c: "length c = l" "set c \<subseteq> set items" "r = c @ replicate (6 - l) 0"
    by (auto simp: xboard_positions_def set_xselections)
  show "\<forall>i < 6. if i < l then r ! i \<in> set items else r ! i = 0"
  proof (intro allI impI)
    fix i :: nat assume "i < 6"
    then show "if i < l then r ! i \<in> set items else r ! i = 0"
      using c by (auto simp: nth_append)
  qed
next
  assume a: "\<forall>i < 6. if i < l then r ! i \<in> set items else r ! i = 0"
  have "set (take l r) \<subseteq> set items"
  proof
    fix x assume "x \<in> set (take l r)"
    then obtain i where "i < length (take l r)" "take l r ! i = x"
      by (auto simp: in_set_conv_nth)
    then show "x \<in> set items" using a assms by (auto split: if_splits)
  qed
  moreover have "length (take l r) = l" using assms by simp
  moreover have "drop l r = replicate (6 - l) 0"
    using a assms by (auto simp: list_eq_iff_nth_eq split: if_splits)
  then have "r = take l r @ replicate (6 - l) 0"
    by (metis append_take_drop_id)
  ultimately show "r \<in> set (xboard_positions items l)"
    unfolding xboard_positions_def set_map set_xselections by blast
qed

lemma harvest_walk_all:
  "(\<forall>j \<in> set ch. j \<in> set (harvest_walk nb ch)) \<longleftrightarrow> (\<forall>j \<in> set ch. nb ! j = 2 \<or> nb ! j = 3)"
proof
  assume "\<forall>j \<in> set ch. j \<in> set (harvest_walk nb ch)"
  then show "\<forall>j \<in> set ch. nb ! j = 2 \<or> nb ! j = 3"
    using harvest_walk_values by blast
next
  assume "\<forall>j \<in> set ch. nb ! j = 2 \<or> nb ! j = 3"
  then have "harvest_walk nb ch = ch"
    unfolding harvest_walk_def by (simp add: takeWhile_eq_all_conv)
  then show "\<forall>j \<in> set ch. j \<in> set (harvest_walk nb ch)" by simp
qed

lemma sown_opponent_row:
  assumes "length b = 14" and "m < 12" and "1 \<le> b ! m"
    and "sow (b[m := 0]) (slice_to (SEED_DRILL ! m) (b ! m)) = Inr nb"
    and "lands_opposite m (landing b m)" and "j \<in> set (opponent_row m)"
  shows "nb ! j = b ! j + int ((seeds_sown b m - 1) div 11) +
                  (if j \<le> landing b m then 1 else 0)"
proof -
  note d = slice_to_drill [OF assms(2,3)]
  have n: "seeds_sown b m \<in> set [1..<49]" using d(2,3) by simp
  have m: "m \<in> set [0..<12]" using assms(2) by simp
  have cnt: "count_list (take (seeds_sown b m) (SEED_DRILL ! m)) j =
        (seeds_sown b m - 1) div 11 + (if j \<le> landing b m then 1 else 0)"
    using lap_table [unfolded list_all_iff, rule_format, OF m n] assms(5,6)
    unfolding landing_def by blast
  have j: "j < 14" "j \<noteq> m"
    using assms(6) by (auto simp: opponent_row_def split: if_splits)
  obtain nb' where "sow (b[m := 0]) (slice_to (SEED_DRILL ! m) (b ! m)) = Inr nb'"
    "\<forall>i < 14. nb' ! i = (if i = m then 0 else b ! i) +
        int (count_list (take (seeds_sown b m) (SEED_DRILL ! m)) i)"
    using sown_board [OF assms(1,2,3)] by blast
  then have "nb ! j = b ! j + int (count_list (take (seeds_sown b m) (SEED_DRILL ! m)) j)"
    using assms(4) j by auto
  then show ?thesis unfolding cnt by simp
qed

lemma reaper_lookup_landing:
  assumes "m < 12" and "1 \<le> b ! m" and "b ! m < 34"
  shows "reaper_lookup m (b ! m) =
     (if lands_opposite m (landing b m) then
        Some (landing b m,
          if seeds_sown b m < 12 then
            positions 0 (if landing b m > 5 then landing b m - 6 else landing b m)
          else if landing b m = 11 \<or> landing b m = 5 then
            (if seeds_sown b m < 23 then
               positions 1 (if landing b m > 5 then landing b m - 6 else landing b m)
             else positions 2 (if landing b m > 5 then landing b m - 6 else landing b m))
          else [])
      else None)"
proof -
  have n: "seeds_sown b m = nat (b ! m)"
    using assms(3) by (simp add: seeds_sown_def)
  show ?thesis
    using assms(2,3)
    by (auto simp: reaper_lookup_def reaper_entry_def Let_def landing_def n
          lands_opposite_def)
qed

lemma row_of_slice:
  assumes "length b = 14"
  shows "(if m < 6 then slice b 6 12 else slice b 0 6) = map ((!) b) (opponent_row m)"
  using assms by (simp add: slice_nth opponent_row_def)

lemma is_capture_unfold:
  assumes "length b = 14" and "m < 12" and "1 \<le> b ! m"
  shows "is_capture b m =
     Inr (b ! m < 34 \<and> lands_opposite m (landing b m) \<and> b ! landing b m \<le> 2 \<and>
          (((b ! landing b m = 0) \<noteq> (b ! m < 12)) \<or>
           (11 < b ! m \<and> b ! m < 23 \<and> b ! landing b m = 1)) \<and>
          map ((!) b) (opponent_row m) \<notin> set (forbidden_rows b m))"
proof (cases "b ! m < 34 \<and> lands_opposite m (landing b m)")
  case False
  then have "reaper_lookup m (b ! m) = None"
    using reaper_lookup_landing [OF assms(2,3)] assms(3)
    by (auto simp: reaper_lookup_def)
  then show ?thesis
    using False assms(1,2) by (auto simp: is_capture_code)
next
  case True
  note d = slice_to_drill [OF assms(2,3)]
  have lk: "reaper_lookup m (b ! m) = Some (landing b m, forbidden_rows b m)"
    using reaper_lookup_landing [OF assms(2,3)] True
    by (simp add: forbidden_rows_def Let_def)
  have row: "(if m < 6 then slice b 6 12 else slice b 0 6) = map ((!) b) (opponent_row m)"
    by (rule row_of_slice [OF assms(1)])
  have g: "getitem b (landing b m) = Inr (b ! landing b m)" "getitem b m = Inr (b ! m)"
    using d(6) assms(1,2) by simp_all
  show ?thesis
  proof (cases "m < 6")
    case m6: True
    then show ?thesis
      using True row by (auto simp: is_capture_code lk g assms(2))
  next
    case m6: False
    then show ?thesis
      using True row by (auto simp: is_capture_code lk g assms(2))
  qed
qed

lemma chain_is_row_prefix:
  assumes "lands_opposite m h" and "h < 12"
  shows "set (HARVESTER ! h) = {j \<in> set (opponent_row m). j \<le> h}"
  using assms
  by (auto simp: harvester_chain lands_opposite_def opponent_row_def simp del: upt_rec_numeral)

lemma row_after_harvest_empty:
  assumes "length b = 14" and "m < 12" and "1 \<le> b ! m" and "\<forall>x \<in> set b. 0 \<le> x"
    and "sow (b[m := 0]) (slice_to (SEED_DRILL ! m) (b ! m)) = Inr nb"
    and "lands_opposite m (landing b m)"
    and "\<forall>i < 14. i \<noteq> store m \<longrightarrow> bc ! i =
           (if i \<in> set (harvest_walk nb (HARVESTER ! landing b m)) then 0 else nb ! i)"
  shows "map ((!) bc) (opponent_row m) = EMPTY_ROW \<longleftrightarrow>
         (\<forall>j \<in> set (opponent_row m).
            if j \<le> landing b m
            then b ! j + int (laps b m) + 1 = 2 \<or> b ! j + int (laps b m) + 1 = 3
            else b ! j + int (laps b m) = 0)"
    (is "?lhs \<longleftrightarrow> ?rhs")
proof -
  note d = slice_to_drill [OF assms(2,3)]
  let ?L = "landing b m"
  let ?ch = "HARVESTER ! ?L"
  have ch: "set ?ch = {j \<in> set (opponent_row m). j \<le> ?L}"
    by (rule chain_is_row_prefix [OF assms(6) d(6)])
  have nb: "\<And>j. j \<in> set (opponent_row m) \<Longrightarrow>
      nb ! j = b ! j + int (laps b m) + (if j \<le> ?L then 1 else 0)"
    using sown_opponent_row [OF assms(1,2,3,5,6)] by (simp add: laps_def)
  have pos: "\<And>j. j \<in> set (opponent_row m) \<Longrightarrow> 0 \<le> b ! j"
  proof -
    fix j assume "j \<in> set (opponent_row m)"
    then have "j < length b" using opponent_row_bound [of j m] assms(1) by simp
    then show "0 \<le> b ! j" using assms(4) nth_mem by blast
  qed
  have bc: "\<And>j. j \<in> set (opponent_row m) \<Longrightarrow>
      bc ! j = (if j \<in> set (harvest_walk nb ?ch) then 0 else nb ! j)"
  proof -
    fix j assume "j \<in> set (opponent_row m)"
    then have "j < 14" "j \<noteq> store m" using opponent_row_bound [of j m] by auto
    then show "bc ! j = (if j \<in> set (harvest_walk nb ?ch) then 0 else nb ! j)"
      using assms(7) by blast
  qed
  have lhs: "?lhs \<longleftrightarrow> (\<forall>j \<in> set (opponent_row m). bc ! j = 0)"
    by (rule map_opponent_row)
  show ?thesis
  proof
    assume ?lhs
    then have z: "\<And>j. j \<in> set (opponent_row m) \<Longrightarrow> bc ! j = 0" using lhs by simp
    show ?rhs
    proof
      fix j assume j: "j \<in> set (opponent_row m)"
      show "if j \<le> ?L
            then b ! j + int (laps b m) + 1 = 2 \<or> b ! j + int (laps b m) + 1 = 3
            else b ! j + int (laps b m) = 0"
      proof (cases "j \<le> ?L")
        case True
        then have "nb ! j \<noteq> 0" using nb [OF j] pos [OF j] by simp
        then have "j \<in> set (harvest_walk nb ?ch)"
          using z [OF j] bc [OF j] by (simp split: if_splits)
        then have "nb ! j = 2 \<or> nb ! j = 3" using harvest_walk_values by blast
        then show ?thesis using True nb [OF j] by simp
      next
        case False
        then have "j \<notin> set ?ch" using ch by simp
        then have "j \<notin> set (harvest_walk nb ?ch)" using harvest_walk_values by blast
        then have "nb ! j = 0" using z [OF j] bc [OF j] by simp
        then show ?thesis using False nb [OF j] by simp
      qed
    qed
  next
    assume r: ?rhs
    have "\<forall>j \<in> set ?ch. nb ! j = 2 \<or> nb ! j = 3"
    proof
      fix j assume "j \<in> set ?ch"
      then have j: "j \<in> set (opponent_row m)" "j \<le> ?L" using ch by auto
      then show "nb ! j = 2 \<or> nb ! j = 3" using r nb [OF j(1)] by auto
    qed
    then have all: "\<forall>j \<in> set ?ch. j \<in> set (harvest_walk nb ?ch)"
      by (simp add: harvest_walk_all)
    have "\<forall>j \<in> set (opponent_row m). bc ! j = 0"
    proof
      fix j assume j: "j \<in> set (opponent_row m)"
      show "bc ! j = 0"
      proof (cases "j \<le> ?L")
        case True
        then have "j \<in> set (harvest_walk nb ?ch)" using all ch j by simp
        then show ?thesis using bc [OF j] by simp
      next
        case False
        then have "nb ! j = 0" using r nb [OF j] j by auto
        then show ?thesis using bc [OF j] by simp
      qed
    qed
    then show ?lhs using lhs by simp
  qed
qed

lemma ball_opponent_row:
  "(\<forall>j \<in> set (opponent_row m). Q j) \<longleftrightarrow>
   (\<forall>i < 6. Q (i + (if m < 6 then 6 else 0)))"
proof
  assume a: "\<forall>j \<in> set (opponent_row m). Q j"
  show "\<forall>i < 6. Q (i + (if m < 6 then 6 else 0))"
  proof (intro allI impI)
    fix i :: nat assume "i < 6"
    then have "i + (if m < 6 then 6 else 0) \<in> set (opponent_row m)"
      by (simp add: opponent_row_def del: upt_rec_numeral)
    then show "Q (i + (if m < 6 then 6 else 0))" using a by blast
  qed
next
  assume a: "\<forall>i < 6. Q (i + (if m < 6 then 6 else 0))"
  show "\<forall>j \<in> set (opponent_row m). Q j"
  proof
    fix j assume "j \<in> set (opponent_row m)"
    then have "j - (if m < 6 then 6 else 0) < 6"
      "j = (j - (if m < 6 then 6 else 0)) + (if m < 6 then 6 else 0)"
      by (auto simp: opponent_row_def simp del: upt_rec_numeral split: if_splits)
    then show "Q j" using a by metis
  qed
qed

lemma nth_opponent_row:
  "i < 6 \<Longrightarrow> map f (opponent_row m) ! i = f (i + (if m < 6 then 6 else 0))"
  by (simp add: opponent_row_def add.commute del: upt_rec_numeral)

lemma laps_cases:
  assumes "m < 12" and "1 \<le> b ! m"
  shows "seeds_sown b m < 12 \<Longrightarrow> laps b m = 0"
    and "12 \<le> seeds_sown b m \<Longrightarrow> seeds_sown b m < 23 \<Longrightarrow> laps b m = 1"
    and "23 \<le> seeds_sown b m \<Longrightarrow> seeds_sown b m < 34 \<Longrightarrow> laps b m = 2"
    and "34 \<le> seeds_sown b m \<Longrightarrow> 3 \<le> laps b m"
  unfolding laps_def by presburger+

lemma forbidden_rows_iff:
  assumes "length b = 14" and "m < 12" and "1 \<le> b ! m" and "b ! m < 34"
    and "\<forall>x \<in> set b. 0 \<le> x" and "lands_opposite m (landing b m)"
  shows "map ((!) b) (opponent_row m) \<in> set (forbidden_rows b m) \<longleftrightarrow>
         (\<forall>j \<in> set (opponent_row m).
            if j \<le> landing b m
            then b ! j + int (laps b m) + 1 = 2 \<or> b ! j + int (laps b m) + 1 = 3
            else b ! j + int (laps b m) = 0)"
    (is "?row \<in> set (forbidden_rows b m) \<longleftrightarrow> ?rhs")
proof -
  note d = slice_to_drill [OF assms(2,3)]
  note lp = laps_cases [OF assms(2,3)]
  define lo :: nat where "lo = (if m < 6 then 6 else 0)"
  define k where "k = (if landing b m > 5 then landing b m - 6 else landing b m)"
  have L: "landing b m = k + lo" "k < 6"
    using assms(6) d(6) by (auto simp: lands_opposite_def lo_def k_def)
  have n34: "seeds_sown b m < 34" using assms(4) by (simp add: seeds_sown_def)
  have len: "length ?row = 6" by (simp add: opponent_row_def)
  have row: "\<And>i. i < 6 \<Longrightarrow> ?row ! i = b ! (i + lo)"
    unfolding lo_def by (rule nth_opponent_row)
  have pos: "\<And>i. i < 6 \<Longrightarrow> 0 \<le> b ! (i + lo)"
  proof -
    fix i :: nat assume "i < 6"
    then have "i + lo < length b" using assms(1) by (simp add: lo_def)
    then show "0 \<le> b ! (i + lo)" using assms(5) nth_mem by blast
  qed
  have rhs: "?rhs \<longleftrightarrow>
      (\<forall>i < 6. if i \<le> k
                then b ! (i + lo) + int (laps b m) + 1 = 2 \<or> b ! (i + lo) + int (laps b m) + 1 = 3
                else b ! (i + lo) + int (laps b m) = 0)"
    unfolding ball_opponent_row L(1) lo_def by simp
  have end_row: "(landing b m = 11 \<or> landing b m = 5) \<longleftrightarrow> k = 5"
    using assms(6) d(6) by (auto simp: lands_opposite_def k_def)
  consider (first) "seeds_sown b m < 12"
    | (second) "12 \<le> seeds_sown b m" "seeds_sown b m < 23"
    | (third) "23 \<le> seeds_sown b m"
    by linarith
  then show ?thesis
  proof cases
    case first
    then have f: "forbidden_rows b m = xboard_positions [1, 2] (k + 1)"
      by (simp add: forbidden_rows_def positions_def k_def)
    have "?row \<in> set (forbidden_rows b m) \<longleftrightarrow>
        (\<forall>i < 6. if i < k + 1 then ?row ! i \<in> set [1, 2] else ?row ! i = 0)"
      unfolding f using L(2) len by (intro in_xboard_positions) auto
    also have "\<dots> \<longleftrightarrow> (\<forall>i < 6. if i \<le> k then b ! (i + lo) = 1 \<or> b ! (i + lo) = 2
                                  else b ! (i + lo) = 0)"
      using row by (auto simp: less_Suc_eq_le)
    also have "\<dots> \<longleftrightarrow> ?rhs"
      unfolding rhs by (auto simp: lp(1) [OF first])
    finally show ?thesis .
  next
    case second
    show ?thesis
    proof (cases "k = 5")
      case True
      then have f: "forbidden_rows b m = xboard_positions [0, 1] 6"
        using second end_row by (simp add: forbidden_rows_def positions_def k_def)
      have "?row \<in> set (forbidden_rows b m) \<longleftrightarrow>
          (\<forall>i < 6. if i < 6 then ?row ! i \<in> set [0, 1] else ?row ! i = 0)"
        unfolding f using len by (intro in_xboard_positions) auto
      also have "\<dots> \<longleftrightarrow> (\<forall>i < 6. b ! (i + lo) = 0 \<or> b ! (i + lo) = 1)"
        using row by auto
      also have "\<dots> \<longleftrightarrow> ?rhs"
        unfolding rhs using True by (auto simp: lp(2) [OF second])
      finally show ?thesis .
    next
      case False
      then have f: "forbidden_rows b m = []"
        using second end_row by (simp add: forbidden_rows_def)
      have nk: "\<not> 5 \<le> k" using False L(2) by simp
      have "\<not> ?rhs"
      proof
        assume ?rhs
        then have "\<forall>i < 6. if i \<le> k
            then b ! (i + lo) + int (laps b m) + 1 = 2 \<or> b ! (i + lo) + int (laps b m) + 1 = 3
            else b ! (i + lo) + int (laps b m) = 0"
          unfolding rhs .
        from this [rule_format, of 5] have "b ! (5 + lo) + int (laps b m) = 0"
          using nk by simp
        then show False using pos [of 5] by (simp add: lp(2) [OF second])
      qed
      then show ?thesis using f by simp
    qed
  next
    case third
    show ?thesis
    proof (cases "k = 5")
      case True
      then have f: "forbidden_rows b m = [[0, 0, 0, 0, 0, 0]]"
        using third end_row by (simp add: forbidden_rows_def positions_def k_def)
      have "?row \<in> set (forbidden_rows b m) \<longleftrightarrow> (\<forall>i < 6. ?row ! i = 0)"
        unfolding f using len
        by (auto simp: list_eq_iff_nth_eq nth_Cons' less_Suc_eq numeral_eq_Suc)
      also have "\<dots> \<longleftrightarrow> (\<forall>i < 6. b ! (i + lo) = 0)"
        using row by auto
      also have "\<dots> \<longleftrightarrow> ?rhs"
        unfolding rhs using True pos by (force simp: lp(3) [OF third n34])
      finally show ?thesis .
    next
      case False
      then have f: "forbidden_rows b m = []"
        using third end_row by (simp add: forbidden_rows_def)
      have nk: "\<not> 5 \<le> k" using False L(2) by simp
      have "\<not> ?rhs"
      proof
        assume ?rhs
        then have "\<forall>i < 6. if i \<le> k
            then b ! (i + lo) + int (laps b m) + 1 = 2 \<or> b ! (i + lo) + int (laps b m) + 1 = 3
            else b ! (i + lo) + int (laps b m) = 0"
          unfolding rhs .
        from this [rule_format, of 5] have "b ! (5 + lo) + int (laps b m) = 0"
          using nk by simp
        then show False using pos [of 5] by (simp add: lp(3) [OF third n34])
      qed
      then show ?thesis using f by simp
    qed
  qed
qed

subsection \<open>The capture test against the move\<close>

lemma member_le_sum_list_int:
  assumes "\<forall>y \<in> set xs. (0::int) \<le> y" and "x \<in> set xs"
  shows "x \<le> sum_list xs"
proof -
  obtain i where "i < length xs" "xs ! i = x"
    using assms(2) by (auto simp: in_set_conv_nth)
  then show ?thesis using nth_le_sum_list_int [OF assms(1), of i] by simp
qed

lemma harvest_gain:
  assumes "h < 12" and "nb ! h = 2 \<or> nb ! h = 3"
  shows "2 \<le> sum_list (map ((!) nb) (harvest_walk nb (HARVESTER ! h)))"
proof -
  have "HARVESTER ! h = h # rev [(if h < 6 then 0 else 6)..<h]"
    using harvester_chain [OF assms(1)] by simp
  then have "h \<in> set (harvest_walk nb (HARVESTER ! h))"
    using assms(2) by (simp add: harvest_walk_def)
  then have "nb ! h \<in> set (map ((!) nb) (harvest_walk nb (HARVESTER ! h)))"
    by simp
  moreover have "\<forall>y \<in> set (map ((!) nb) (harvest_walk nb (HARVESTER ! h))). 0 \<le> y"
    by (auto dest: harvest_walk_values)
  ultimately have "nb ! h \<le> sum_list (map ((!) nb) (harvest_walk nb (HARVESTER ! h)))"
    using member_le_sum_list_int by blast
  then show ?thesis using assms(2) by auto
qed

lemma landing_in_row:
  assumes "lands_opposite m h" and "h < 12"
  shows "h \<in> set (opponent_row m)"
  using assms by (auto simp: lands_opposite_def opponent_row_def simp del: upt_rec_numeral)

lemma capture_tests:
  assumes "m < 12" and "1 \<le> b ! m" and "0 \<le> v"
  shows "(b ! m < 34 \<and> v \<le> 2 \<and>
          (((v = 0) \<noteq> (b ! m < 12)) \<or> (11 < b ! m \<and> b ! m < 23 \<and> v = 1))) \<longleftrightarrow>
         (v + int (laps b m) + 1 = 2 \<or> v + int (laps b m) + 1 = 3)"
proof -
  note lp = laps_cases [OF assms(1,2)]
  consider (first) "b ! m < 12" | (second) "12 \<le> b ! m" "b ! m < 23"
    | (third) "23 \<le> b ! m" "b ! m < 34" | (more) "34 \<le> b ! m"
    by linarith
  then show ?thesis
  proof cases
    case first
    then have "seeds_sown b m < 12" using assms(2) by (simp add: seeds_sown_def)
    then show ?thesis using lp(1) first assms(3) by auto
  next
    case second
    then have "12 \<le> seeds_sown b m" "seeds_sown b m < 23"
      by (simp_all add: seeds_sown_def)
    then show ?thesis using lp(2) second assms(3) by auto
  next
    case third
    then have "23 \<le> seeds_sown b m" "seeds_sown b m < 34"
      by (simp_all add: seeds_sown_def)
    then show ?thesis using lp(3) third assms(3) by auto
  next
    case more
    then have "34 \<le> seeds_sown b m" by (simp add: seeds_sown_def)
    then have "3 \<le> laps b m" by (rule lp(4))
    then show ?thesis using more assms(3) by auto
  qed
qed

lemma capture_agrees:
  assumes "length b = 14" and "m < 12" and "1 \<le> b ! m" and "\<forall>x \<in> set b. 0 \<le> x"
  shows "\<exists>c b'. is_capture b m = Inr c \<and> compute_board b m = Inr b' \<and>
               (c \<longleftrightarrow> b ! store m < b' ! store m)"
proof -
  note d = slice_to_drill [OF assms(2,3)]
  let ?L = "landing b m"
  obtain nb where nb: "sow (b[m := 0]) (slice_to (SEED_DRILL ! m) (b ! m)) = Inr nb"
    "length nb = 14" "nb ! 12 = b ! 12" "nb ! 13 = b ! 13"
    using sown_board [OF assms(1,2,3)] by blast
  obtain bc where bc: "gather nb (store m) (HARVESTER ! ?L) = Inr bc"
    "length bc = 14"
    "\<forall>i < 14. i \<noteq> store m \<longrightarrow> bc ! i =
        (if i \<in> set (harvest_walk nb (HARVESTER ! ?L)) then 0 else nb ! i)"
    "bc ! store m = nb ! store m + sum_list (map ((!) nb) (harvest_walk nb (HARVESTER ! ?L)))"
    using harvested_board [OF nb(2) d(6), of m] by blast
  let ?A = "nb ! ?L = 2 \<or> nb ! ?L = 3"
  let ?E = "map ((!) bc) (opponent_row m) = EMPTY_ROW"
  let ?T = "b ! m < 34 \<and> b ! ?L \<le> 2 \<and>
            (((b ! ?L = 0) \<noteq> (b ! m < 12)) \<or> (11 < b ! m \<and> b ! m < 23 \<and> b ! ?L = 1))"
  let ?F = "map ((!) b) (opponent_row m) \<in> set (forbidden_rows b m)"
  have cb: "compute_board b m =
      Inr (if ?A \<and> lands_opposite m ?L \<and> \<not> ?E then bc else nb)"
    using compute_board_unfold [OF assms(1,2,3) nb(1,2) bc(1,2)] by simp
  have ic: "is_capture b m = Inr (lands_opposite m ?L \<and> ?T \<and> \<not> ?F)"
    using is_capture_unfold [OF assms(1,2,3)] by (simp add: conj_ac)
  have store_nb: "nb ! store m = b ! store m"
    using nb(3,4) by (simp add: store_def)
  have gain: "?A \<Longrightarrow> b ! store m < bc ! store m"
    using harvest_gain [OF d(6), of nb] bc(4) store_nb by simp
  show ?thesis
  proof (cases "lands_opposite m ?L")
    case False
    then show ?thesis using cb ic store_nb by auto
  next
    case True
    have Lrow: "?L \<in> set (opponent_row m)"
      by (rule landing_in_row [OF True d(6)])
    have "?L < length b" using d(6) assms(1) by simp
    then have v: "0 \<le> b ! ?L" using assms(4) nth_mem by blast
    have "nb ! ?L = b ! ?L + int (laps b m) + 1"
      using sown_opponent_row [OF assms(1,2,3) nb(1) True Lrow] by (simp add: laps_def)
    then have tests: "?T \<longleftrightarrow> ?A"
      using capture_tests [OF assms(2,3) v] by simp
    have slam: "?E \<longleftrightarrow> ?F" if "b ! m < 34"
      using row_after_harvest_empty [OF assms(1,2,3,4) nb(1) True bc(3)]
        forbidden_rows_iff [OF assms(1,2,3) that assms(4) True]
      by simp
    show ?thesis
    proof (cases "?A \<and> \<not> ?E")
      case yes: True
      then have "?T" using tests by simp
      then have "\<not> ?F" using slam yes by simp
      then show ?thesis using cb ic True yes \<open>?T\<close> gain by auto
    next
      case no: False
      have "\<not> (?T \<and> \<not> ?F)"
      proof
        assume a: "?T \<and> \<not> ?F"
        then have "?A" using tests by simp
        moreover have "\<not> ?E" using a slam by simp
        ultimately show False using no by simp
      qed
      then show ?thesis using cb ic True no store_nb by auto
    qed
  qed
qed

subsection \<open>Writing and reading a position\<close>

lemma houses_pattern_times: "houses_pattern = repeated 14 house_pattern"
  by (simp add: houses_pattern_def house_pattern_def)

lemma str_table:
  "list_all (\<lambda>n. int_of_str (str (int n)) = Inr (int n) \<and> CHR ''-'' \<notin> set (str (int n)))
     [0..<50]"
  by code_simp

lemma house_pattern_table:
  "list_all (\<lambda>n. rmatch house_pattern (str (int n) @ CHR ''-'' # rest) = [rest]) [0..<50]"
  by code_simp

lemma seeds_as_nat:
  assumes "0 \<le> x" and "x \<le> 49"
  obtains n where "x = int n" and "n \<in> set [0..<50]"
proof -
  have "x = int (nat x)" "nat x \<in> set [0..<50]" using assms by auto
  then show thesis using that by blast
qed

lemma str_facts:
  assumes "0 \<le> x" and "x \<le> 49"
  shows "int_of_str (str x) = Inr x" and "CHR ''-'' \<notin> set (str x)"
    and "rmatch house_pattern (str x @ CHR ''-'' # rest) = [rest]"
proof -
  obtain n where n: "x = int n" "n \<in> set [0..<50]"
    using seeds_as_nat [OF assms] by blast
  show "int_of_str (str x) = Inr x" "CHR ''-'' \<notin> set (str x)"
    using str_table [unfolded list_all_iff, rule_format, OF n(2)] n(1) by simp_all
  show "rmatch house_pattern (str x @ CHR ''-'' # rest) = [rest]"
    using house_pattern_table [unfolded list_all_iff, rule_format, OF n(2)] n(1) by simp
qed

lemma join_snoc:
  "join sep (xs @ [y]) = concat (map (\<lambda>x. x @ sep) xs) @ y"
proof (induction xs)
  case Nil
  then show ?case by simp
next
  case (Cons x xs)
  then show ?case by (cases xs) simp_all
qed

lemma rmatch_houses:
  assumes "\<forall>x \<in> set xs. 0 \<le> x \<and> x \<le> 49"
  shows "rmatch (repeated (length xs) house_pattern)
           (concat (map (\<lambda>x. str x @ ''-'') xs) @ rest) = [rest]"
  using assms
proof (induction xs)
  case Nil
  then show ?case by simp
next
  case (Cons x xs)
  have "rmatch house_pattern
          (str x @ CHR ''-'' # (concat (map (\<lambda>x. str x @ ''-'') xs) @ rest)) =
        [concat (map (\<lambda>x. str x @ ''-'') xs) @ rest]"
    using Cons.prems by (intro str_facts(3)) auto
  then show ?case using Cons by simp
qed

lemma split_word:
  "c \<notin> set w \<Longrightarrow> split c (w @ c # rest) = w # split c rest"
proof (induction w)
  case Nil
  then show ?case by simp
next
  case (Cons x w)
  then show ?case by auto
qed

lemma split_houses:
  assumes "\<forall>x \<in> set xs. 0 \<le> x \<and> x \<le> 49"
  shows "split CHR ''-'' (concat (map (\<lambda>x. str x @ ''-'') xs)) = map str xs @ [[]]"
  using assms
proof (induction xs)
  case Nil
  then show ?case by simp
next
  case (Cons x xs)
  have "CHR ''-'' \<notin> set (str x)" using Cons.prems by (intro str_facts(2)) auto
  then show ?case using Cons by (simp add: split_word)
qed

lemma int_each_houses:
  assumes "\<forall>x \<in> set xs. 0 \<le> x \<and> x \<le> 49"
  shows "int_each (map str xs) = Inr xs"
  using assms
proof (induction xs)
  case Nil
  then show ?case by simp
next
  case (Cons x xs)
  have "int_of_str (str x) = Inr x" using Cons.prems by (intro str_facts(1)) auto
  then show ?case using Cons by simp
qed

subsection \<open>The capture test without its second disjunct\<close>

lemma is_capture_first_disjunct_unfold:
  assumes "length b = 14" and "m < 12" and "1 \<le> b ! m"
  shows "is_capture_first_disjunct b m =
     Inr (b ! m < 34 \<and> lands_opposite m (landing b m) \<and> b ! landing b m \<le> 2 \<and>
          ((b ! landing b m = 0) \<noteq> (b ! m < 12)) \<and>
          map ((!) b) (opponent_row m) \<notin> set (forbidden_rows b m))"
proof (cases "b ! m < 34 \<and> lands_opposite m (landing b m)")
  case False
  then have "reaper_lookup m (b ! m) = None"
    using reaper_lookup_landing [OF assms(2,3)] assms(3)
    by (auto simp: reaper_lookup_def)
  then show ?thesis
    using False assms(1,2) by (auto simp: is_capture_first_disjunct_code)
next
  case True
  note d = slice_to_drill [OF assms(2,3)]
  have lk: "reaper_lookup m (b ! m) = Some (landing b m, forbidden_rows b m)"
    using reaper_lookup_landing [OF assms(2,3)] True
    by (simp add: forbidden_rows_def Let_def)
  have row: "(if m < 6 then slice b 6 12 else slice b 0 6) = map ((!) b) (opponent_row m)"
    by (rule row_of_slice [OF assms(1)])
  have g: "getitem b (landing b m) = Inr (b ! landing b m)" "getitem b m = Inr (b ! m)"
    using d(6) assms(1,2) by simp_all
  show ?thesis
  proof (cases "m < 6")
    case m6: True
    then show ?thesis
      using True row by (auto simp: is_capture_first_disjunct_code lk g assms(2))
  next
    case m6: False
    then show ?thesis
      using True row by (auto simp: is_capture_first_disjunct_code lk g assms(2))
  qed
qed

lemma no_seed_no_capture:
  assumes "length b = 14" and "m < 12" and "\<not> 1 \<le> b ! m"
  shows "is_capture b m = Inr False" and "is_capture_first_disjunct b m = Inr False"
proof -
  have "reaper_lookup m (b ! m) = None"
    using assms(3) by (simp add: reaper_lookup_def)
  then show "is_capture b m = Inr False" "is_capture_first_disjunct b m = Inr False"
    using assms(1,2) by (simp_all add: is_capture_code is_capture_first_disjunct_code)
qed

section \<open>The claims\<close>

text \<open>
  C10. \<open>compute_board\<close> needs a seed in the house it plays. On a board of 14 entries and
  for a house below 12: when the house is empty the sowing loop does not run and reading
  the last pit sown raises UnboundLocalError; when it holds at least one seed the function
  returns a board of 14 entries.
\<close>

theorem compute_board_precondition:
  assumes "length b = 14" and "m < 12"
  shows "(b ! m = 0 \<longrightarrow> compute_board b m = Inl UnboundLocalError) \<and>
         (1 \<le> b ! m \<longrightarrow> (\<exists>b'. compute_board b m = Inr b' \<and> length b' = 14))"
proof (intro conjI impI)
  assume "b ! m = 0"
  then show "compute_board b m = Inl UnboundLocalError"
    using assms by (simp add: compute_board_def length_SEED_DRILL slice_to_def)
next
  assume s: "1 \<le> b ! m"
  let ?hs = "slice_to (SEED_DRILL ! m) (b ! m)"
  have ne: "?hs \<noteq> []"
    using s drill_facts(1) [OF assms(2)] by (intro slice_to_nonempty) auto
  have bound: "\<forall>h \<in> set ?hs. h < 12"
    using set_slice_to [of "SEED_DRILL ! m" "b ! m"] drill_facts(2) [OF assms(2)] by blast
  then obtain nb where nb: "sow (b[m := 0]) ?hs = Inr nb" "length nb = 14"
    using sow_total [of ?hs "b[m := 0]"] assms by fastforce
  have lst: "last ?hs < 12"
    using ne bound last_in_set by blast
  have ch: "\<forall>h \<in> set (HARVESTER ! last ?hs). h < length nb"
    using harvester_bound [OF lst] nb(2) by fastforce
  have g: "\<And>st. st < 14 \<Longrightarrow>
             \<exists>bc. gather nb st (HARVESTER ! last ?hs) = Inr bc \<and> length bc = 14"
    using gather_total [OF ch] nb(2) by simp
  obtain bc12 where bc12: "gather nb 12 (HARVESTER ! last ?hs) = Inr bc12" "length bc12 = 14"
    using g [of 12] by auto
  obtain bc13 where bc13: "gather nb 13 (HARVESTER ! last ?hs) = Inr bc13" "length bc13 = 14"
    using g [of 13] by auto
  show "\<exists>b'. compute_board b m = Inr b' \<and> length b' = 14"
    using assms nb ne lst bc12 bc13
    by (simp add: compute_board_def length_SEED_DRILL length_HARVESTER Let_def)
qed

text \<open>C10, on a board whose house 2 is empty, and at the initial board.\<close>

theorem compute_board_precondition_witness:
  "compute_board [4, 4, 0, 4, 4, 4, 4, 4, 4, 4, 4, 4, 4, 0] 2 = Inl UnboundLocalError \<and>
   (\<exists>b'. compute_board [4, 4, 4, 4, 4, 4, 4, 4, 4, 4, 4, 4, 0, 0] 2 = Inr b' \<and> length b' = 14)"
  using compute_board_precondition [of "[4, 4, 0, 4, 4, 4, 4, 4, 4, 4, 4, 4, 4, 0]" 2]
    compute_board_precondition [of "[4, 4, 4, 4, 4, 4, 4, 4, 4, 4, 4, 4, 0, 0]" 2]
  by simp

text \<open>
  C6. \<open>get_final_board\<close> on a board of 14 entries: the board itself when a store holds
  more than 24 seeds or both hold 24; otherwise twelve empty houses, SOUTH's store
  increased by the seeds of houses 0..5 and NORTH's by those of houses 6..11.
\<close>

theorem get_final_board_spec:
  assumes "length b = 14"
  shows "get_final_board b =
         Inr (if b ! 12 > 24 \<or> b ! 13 > 24 \<or> (b ! 12 = 24 \<and> b ! 13 = 24) then b
              else [0, 0, 0, 0, 0, 0, 0, 0, 0, 0, 0, 0,
                    b ! 12 + (b ! 0 + b ! 1 + b ! 2 + b ! 3 + b ! 4 + b ! 5),
                    b ! 13 + (b ! 6 + b ! 7 + b ! 8 + b ! 9 + b ! 10 + b ! 11)])"
proof -
  obtain b0 b1 b2 b3 b4 b5 b6 b7 b8 b9 b10 b11 b12 b13
    where b: "b = [b0, b1, b2, b3, b4, b5, b6, b7, b8, b9, b10, b11, b12, b13]"
    using list14 [OF assms] by blast
  show ?thesis
    unfolding b by (simp add: get_final_board_def slice_def numeral_eq_Suc)
qed

text \<open>C6, at the board of the forced-feeding scenario: SOUTH sweeps its three seeds.\<close>

theorem get_final_board_spec_witness:
  "get_final_board [0, 0, 0, 0, 0, 3, 0, 0, 0, 0, 0, 0, 0, 0] =
   Inr [0, 0, 0, 0, 0, 0, 0, 0, 0, 0, 0, 0, 3, 0]"
  using get_final_board_spec [of "[0, 0, 0, 0, 0, 3, 0, 0, 0, 0, 0, 0, 0, 0]"] by simp

text \<open>
  C3, as stated, fails: on the board (0,0,0,0,0,1, 1,0,0,0,0,0, 0,0) the move 5 does not
  give twelve empty houses and a SOUTH store of 2.
\<close>

theorem immediate_capture_counterexample:
  "compute_board [0, 0, 0, 0, 0, 1, 1, 0, 0, 0, 0, 0, 0, 0] 5 \<noteq>
   Inr [0, 0, 0, 0, 0, 0, 0, 0, 0, 0, 0, 0, 2, 0]"
  by code_simp

text \<open>
  C3, amended. Gathering house 6 would empty NORTH's row, a Grand Slam, so nothing is
  captured: \<open>compute_board\<close> returns the board after sowing, with 2 seeds in house 6 and
  both stores at 0, and \<open>is_capture\<close> is false for the move.
\<close>

theorem immediate_capture_grand_slam:
  "compute_board [0, 0, 0, 0, 0, 1, 1, 0, 0, 0, 0, 0, 0, 0] 5 =
     Inr [0, 0, 0, 0, 0, 0, 2, 0, 0, 0, 0, 0, 0, 0] \<and>
   is_capture [0, 0, 0, 0, 0, 1, 1, 0, 0, 0, 0, 0, 0, 0] 5 = Inr False"
  by code_simp

text \<open>C3, amended, read off at house 6 and at SOUTH's store.\<close>

theorem immediate_capture_grand_slam_witness:
  "\<exists>b'. compute_board [0, 0, 0, 0, 0, 1, 1, 0, 0, 0, 0, 0, 0, 0] 5 = Inr b' \<and>
        b' ! 6 = 2 \<and> b' ! 12 = 0"
  using immediate_capture_grand_slam by simp

text \<open>
  C9. \<open>to_moves\<close> does not reject every sequence that fails to alternate: \<open>AA\<close> is
  accepted and converted, since \<open>re.match\<close> is satisfied by the prefix \<open>A\<close> of the first
  alternative, which \<open>$\<close> does not close. The second alternative, closed by \<open>$\<close>, rejects
  \<open>aa\<close>.
\<close>

theorem to_moves_accepts_repeated_side:
  "to_moves ''AA'' = Inr [0, 0] \<and> to_moves ''aa'' = Inl ValueError"
  by code_simp

text \<open>
  C5, as stated, fails: on a board of 48 seeds with 17 seeds in house 0 and one seed in
  house 6, \<open>is_capture\<close> holds by the second disjunct alone, and is false without it.
\<close>

theorem second_disjunct_counterexample:
  "sum_list [17, 0, 0, 0, 0, 0, 1, 0, 0, 0, 0, 0, 15, 15 :: int] = 48 \<and>
   is_capture [17, 0, 0, 0, 0, 0, 1, 0, 0, 0, 0, 0, 15, 15] 0 = Inr True \<and>
   is_capture_first_disjunct [17, 0, 0, 0, 0, 0, 1, 0, 0, 0, 0, 0, 15, 15] 0 = Inr False"
  by code_simp

text \<open>
  C5, amended. The second disjunct tests the seeds of the house played, not the move. On a
  board of 14 entries and for a house below 12, removing it changes the result of
  \<open>is_capture\<close> in exactly one case: the house holds 12 to 22 seeds, its sowing ends on
  the opponent's side in a pit that holds exactly one seed, and the opponent's row is not
  one of the rows stored with the move in \<open>REAPER\<close>; then \<open>is_capture\<close> is true and
  would be false without the disjunct. In every other case, also for 12 to 22 seeds, the
  disjunct is idle.
\<close>

theorem second_disjunct_decides:
  assumes "length b = 14" and "m < 12"
  shows "(is_capture b m \<noteq> is_capture_first_disjunct b m \<longleftrightarrow>
            11 < b ! m \<and> b ! m < 23 \<and> lands_opposite m (landing b m) \<and>
            b ! landing b m = 1 \<and>
            map ((!) b) (opponent_row m) \<notin> set (forbidden_rows b m)) \<and>
         (is_capture b m = Inr True \<and> is_capture_first_disjunct b m = Inr False \<longleftrightarrow>
            11 < b ! m \<and> b ! m < 23 \<and> lands_opposite m (landing b m) \<and>
            b ! landing b m = 1 \<and>
            map ((!) b) (opponent_row m) \<notin> set (forbidden_rows b m))"
proof (cases "1 \<le> b ! m")
  case False
  then show ?thesis using no_seed_no_capture [OF assms False] by simp
next
  case True
  show ?thesis
    unfolding is_capture_unfold [OF assms True]
      is_capture_first_disjunct_unfold [OF assms True]
    by auto
qed

text \<open>C5, amended: NORTH's house 10 with 14 seeds ends in house 1, which holds one
  seed, and the disjunct decides; SOUTH's house 0 with 17 seeds ends in house 6, which
  holds two, and the disjunct is idle.\<close>

theorem second_disjunct_decides_witness:
  "is_capture [0, 1, 0, 0, 0, 0, 0, 0, 0, 0, 14, 0, 20, 13] 10 = Inr True \<and>
   is_capture_first_disjunct [0, 1, 0, 0, 0, 0, 0, 0, 0, 0, 14, 0, 20, 13] 10 = Inr False \<and>
   is_capture [17, 0, 0, 0, 0, 0, 2, 0, 0, 0, 0, 0, 14, 15] 0 =
     is_capture_first_disjunct [17, 0, 0, 0, 0, 0, 2, 0, 0, 0, 0, 0, 14, 15] 0"
proof -
  let ?b = "[0, 1, 0, 0, 0, 0, 0, 0, 0, 0, 14, 0, 20, 13] :: int list"
  let ?c = "[17, 0, 0, 0, 0, 0, 2, 0, 0, 0, 0, 0, 14, 15] :: int list"
  have needed: "11 < ?b ! 10 \<and> ?b ! 10 < 23 \<and> lands_opposite 10 (landing ?b 10) \<and>
      ?b ! landing ?b 10 = 1 \<and>
      map ((!) ?b) (opponent_row 10) \<notin> set (forbidden_rows ?b 10)"
    by code_simp
  have idle: "?c ! landing ?c 0 \<noteq> 1" by code_simp
  show ?thesis
    using second_disjunct_decides [of ?b 10] second_disjunct_decides [of ?c 0] needed idle
    by simp
qed

text \<open>
  C7. A call of \<open>_search\<close> on a position that is in the line of play, with the abort
  flag unset, returns \<open>turn * get_final_score(board)\<close> and leaves the engine's state, the
  line of play included, as it was. It does so for every depth and already with the bound 1
  on the nesting of calls, under which a recursive call would not return: no recursive
  call is made.
\<close>

theorem repetition_closure:
  assumes "length board = 14" and "\<not> aborted st" and "(board, turn) \<in> line st"
  shows "\<exists>s. get_final_score board = Inr s \<and>
             search (Suc fuel) board turn alpha beta depth st = Some (Inr (turn * s), st)"
proof -
  obtain e where e: "is_end board turn = Inr e"
    using is_end_total [OF assms(1)] by blast
  obtain s where s: "get_final_score board = Inr s"
    using get_final_score_total [OF assms(1)] by blast
  show ?thesis
    using assms(2,3) e s by simp
qed

text \<open>C7, at the initial position with itself in the line of play, SOUTH to move,
  bound 1 and depth 4: the score is that of a draw.\<close>

theorem repetition_closure_witness:
  "search (Suc 0) [4, 4, 4, 4, 4, 4, 4, 4, 4, 4, 4, 4, 0, 0] 1 (- 1000) 1000 4
     \<lparr>aborted = False, line = {([4, 4, 4, 4, 4, 4, 4, 4, 4, 4, 4, 4, 0, 0], 1)}\<rparr> =
   Some (Inr 0, \<lparr>aborted = False, line = {([4, 4, 4, 4, 4, 4, 4, 4, 4, 4, 4, 4, 0, 0], 1)}\<rparr>)"
  using repetition_closure [of "[4, 4, 4, 4, 4, 4, 4, 4, 4, 4, 4, 4, 0, 0]"
      "\<lparr>aborted = False, line = {([4, 4, 4, 4, 4, 4, 4, 4, 4, 4, 4, 4, 0, 0], 1)}\<rparr>"
      1 0 "- 1000" 1000 4]
  by (simp add: get_final_score_def slice_def)

text \<open>
  C2. Grand Slam. Let a move with at least one seed end its sowing on the opponent's side
  in a pit that then holds 2 or 3 seeds. If walking the harvest chain from that pit,
  gathering the pits that hold 2 or 3 seeds up to the first that does not, would leave
  every house of the opponent's row at zero, then \<open>compute_board\<close> returns exactly the
  board after sowing: nothing is gathered and the mover's store is the one before the move.
\<close>

theorem grand_slam_leaves_sown_board:
  assumes "length b = 14" and "m < 12" and "1 \<le> b ! m"
    and "sow (b[m := 0]) (slice_to (SEED_DRILL ! m) (b ! m)) = Inr nb"
    and "house = last (slice_to (SEED_DRILL ! m) (b ! m))"
    and "lands_opposite m house"
    and "nb ! house = 2 \<or> nb ! house = 3"
    and "row_after_walk nb (HARVESTER ! house) (opponent_row m) = [0, 0, 0, 0, 0, 0]"
  shows "compute_board b m = Inr nb \<and> nb ! store m = b ! store m"
proof -
  note d = slice_to_drill [OF assms(2,3)]
  have house: "house = landing b m" using assms(5) d(1,4) by simp
  obtain nb' where nb': "sow (b[m := 0]) (slice_to (SEED_DRILL ! m) (b ! m)) = Inr nb'"
    "length nb' = 14" "nb' ! 12 = b ! 12" "nb' ! 13 = b ! 13"
    using sown_board [OF assms(1,2,3)] by blast
  then have nb: "length nb = 14" "nb ! 12 = b ! 12" "nb ! 13 = b ! 13"
    using assms(4) by auto
  obtain bc where bc: "gather nb (store m) (HARVESTER ! landing b m) = Inr bc"
    "length bc = 14"
    "\<forall>i < 14. i \<noteq> store m \<longrightarrow> bc ! i =
        (if i \<in> set (harvest_walk nb (HARVESTER ! landing b m)) then 0 else nb ! i)"
    using harvested_board [OF nb(1) d(6), of m] by blast
  have "map ((!) bc) (opponent_row m) =
        row_after_walk nb (HARVESTER ! landing b m) (opponent_row m)"
    unfolding row_after_walk_def
  proof (rule map_cong [OF refl])
    fix j assume "j \<in> set (opponent_row m)"
    then have "j < 14" "j \<noteq> store m" using opponent_row_bound [of j m] by auto
    then show "bc ! j =
        (if j \<in> set (harvest_walk nb (HARVESTER ! landing b m)) then 0 else nb ! j)"
      using bc(3) by simp
  qed
  then have "map ((!) bc) (opponent_row m) = EMPTY_ROW"
    using assms(8) house by (simp add: EMPTY_ROW_def)
  then have "compute_board b m = Inr nb"
    using compute_board_unfold [OF assms(1,2,3,4) nb(1) bc(1,2)] by simp
  then show ?thesis using nb(2,3) by (simp add: store_def)
qed

text \<open>C2, on a board of 48 seeds where SOUTH's house 5 sows into houses 6 and 7, which
  then hold 2 and 3 seeds and are all that NORTH has.\<close>

theorem grand_slam_leaves_sown_board_witness:
  "compute_board [0, 0, 0, 0, 1, 2, 1, 2, 0, 0, 0, 0, 21, 21] 5 =
     Inr [0, 0, 0, 0, 1, 0, 2, 3, 0, 0, 0, 0, 21, 21]"
proof -
  let ?b = "[0, 0, 0, 0, 1, 2, 1, 2, 0, 0, 0, 0, 21, 21] :: int list"
  let ?nb = "[0, 0, 0, 0, 1, 0, 2, 3, 0, 0, 0, 0, 21, 21] :: int list"
  have h1: "length ?b = 14" and h2: "(5::nat) < 12" and h3: "1 \<le> ?b ! 5" by simp_all
  have h4: "sow (?b[5 := 0]) (slice_to (SEED_DRILL ! 5) (?b ! 5)) = Inr ?nb" by code_simp
  have h5: "7 = last (slice_to (SEED_DRILL ! 5) (?b ! 5))" by code_simp
  have h6: "lands_opposite 5 7" by (simp add: lands_opposite_def)
  have h7: "?nb ! 7 = 2 \<or> ?nb ! 7 = 3" by simp
  have h8: "row_after_walk ?nb (HARVESTER ! 7) (opponent_row 5) = [0, 0, 0, 0, 0, 0]"
    by code_simp
  show ?thesis
    using grand_slam_leaves_sown_board [OF h1 h2 h3 h4 h5 h6 h7 h8] by simp
qed

text \<open>
  C4. Seed conservation. For a position reachable from the initial board and a move that
  \<open>xlegal_moves\<close> yields for the side to move, \<open>compute_board\<close> returns a board with the
  same number of seeds, and that number is 48.
\<close>

theorem seed_conservation:
  assumes "reachable b t" and "xlegal_moves b t = Inr ms" and "m \<in> set ms"
  shows "\<exists>b'. compute_board b m = Inr b' \<and> sum_list b' = sum_list b \<and> sum_list b = 48"
proof -
  have inv: "length b = 14" "sum_list b = 48" "\<forall>x \<in> set b. 0 \<le> x"
    using reachable_invariant [OF assms(1)] by auto
  have m: "m < 12" "1 \<le> b ! m"
    using xlegal_moves_member [OF inv(1) assms(2,3)] by auto
  have "b ! m \<le> 48"
    using nth_le_sum_list_int [OF inv(3), of m] inv(1,2) m(1) by simp
  from compute_board_invariant [OF inv(1) m this inv(3)] show ?thesis
    using inv(2) by auto
qed

text \<open>C4, at the initial position, SOUTH playing house 2.\<close>

theorem seed_conservation_witness:
  "\<exists>b'. compute_board get_initial_board 2 = Inr b' \<and>
        sum_list b' = sum_list get_initial_board \<and> sum_list get_initial_board = 48"
proof -
  have r: "reachable get_initial_board 1"
    by (rule reachable.initial) (simp add: SOUTH_def)
  have x: "xlegal_moves get_initial_board 1 = Inr [0, 1, 2, 3, 4, 5]" by code_simp
  show ?thesis
    using seed_conservation [OF r x, of 2] by simp
qed

text \<open>
  C1. Capture correctness. For a position reachable from the initial board and a move that
  \<open>xlegal_moves\<close> yields for the side to move, \<open>is_capture\<close> and \<open>compute_board\<close> both
  return, and \<open>is_capture\<close> is true exactly when the board returned holds more seeds in
  the mover's store (entry 12 for the houses 0..5, entry 13 for the houses 6..11) than the
  board before the move.
\<close>

theorem capture_correctness:
  assumes "reachable b t" and "xlegal_moves b t = Inr ms" and "m \<in> set ms"
  shows "\<exists>c b'. is_capture b m = Inr c \<and> compute_board b m = Inr b' \<and>
               (c \<longleftrightarrow> b ! store m < b' ! store m)"
proof -
  have inv: "length b = 14" "\<forall>x \<in> set b. 0 \<le> x"
    using reachable_invariant [OF assms(1)] by auto
  have m: "m < 12" "1 \<le> b ! m"
    using xlegal_moves_member [OF inv(1) assms(2,3)] by auto
  show ?thesis by (rule capture_agrees [OF inv(1) m inv(2)])
qed

text \<open>C1, at the position reached from the initial one by the moves 0, 8 and 2: NORTH
  plays house 7, whose five seeds end in house 0 and make it hold 2; \<open>is_capture\<close> is
  true and NORTH's store grows from 0 to 2.\<close>

theorem capture_correctness_witness:
  "is_capture [1, 5, 0, 6, 6, 5, 5, 5, 0, 5, 5, 5, 0, 0] 7 = Inr True \<and>
   compute_board [1, 5, 0, 6, 6, 5, 5, 5, 0, 5, 5, 5, 0, 0] 7 =
     Inr [0, 5, 0, 6, 6, 5, 5, 0, 1, 6, 6, 6, 0, 2]"
proof -
  let ?b0 = "[4, 4, 4, 4, 4, 4, 4, 4, 4, 4, 4, 4, 0, 0] :: int list"
  let ?b1 = "[0, 5, 5, 5, 5, 4, 4, 4, 4, 4, 4, 4, 0, 0] :: int list"
  let ?b2 = "[1, 5, 5, 5, 5, 4, 4, 4, 0, 5, 5, 5, 0, 0] :: int list"
  let ?b3 = "[1, 5, 0, 6, 6, 5, 5, 5, 0, 5, 5, 5, 0, 0] :: int list"
  have e: "get_initial_board = ?b0" by code_simp
  have r0: "reachable ?b0 1"
    using reachable.initial [of 1] by (simp add: SOUTH_def e)
  have x0: "xlegal_moves ?b0 1 = Inr [0, 1, 2, 3, 4, 5]" by code_simp
  have c0: "compute_board ?b0 0 = Inr ?b1" by code_simp
  have r1: "reachable ?b1 (- 1)"
    using reachable.move [OF r0 x0 _ c0] by simp
  have x1: "xlegal_moves ?b1 (- 1) = Inr [6, 7, 8, 9, 10, 11]" by code_simp
  have c1: "compute_board ?b1 8 = Inr ?b2" by code_simp
  have r2: "reachable ?b2 1"
    using reachable.move [OF r1 x1 _ c1] by simp
  have x2: "xlegal_moves ?b2 1 = Inr [0, 1, 2, 3, 4, 5]" by code_simp
  have c2: "compute_board ?b2 2 = Inr ?b3" by code_simp
  have r3: "reachable ?b3 (- 1)"
    using reachable.move [OF r2 x2 _ c2] by simp
  have x3: "xlegal_moves ?b3 (- 1) = Inr [7, 6, 9, 10, 11]" by code_simp
  have c3: "compute_board ?b3 7 = Inr [0, 5, 0, 6, 6, 5, 5, 0, 1, 6, 6, 6, 0, 2]"
    by code_simp
  show ?thesis
    using capture_correctness [OF r3 x3, of 7] c3 by (auto simp: store_def)
qed

text \<open>
  C8. Notation round trip. For a board of 14 entries, each between 0 and 49, and a turn
  that is SOUTH or NORTH, \<open>to_position\<close> applied to the notation that
  \<open>to_board_notation\<close> writes returns the board and the turn.
\<close>

theorem notation_round_trip:
  assumes "length b = 14" and "\<forall>x \<in> set b. 0 \<le> x \<and> x \<le> 49"
    and "t = SOUTH \<or> t = NORTH"
  shows "to_position (to_board_notation b t) = Inr (b, t)"
proof -
  let ?side = "if t = SOUTH then ''S'' else ''N''"
  let ?houses = "concat (map (\<lambda>x. str x @ ''-'') b)"
  have nota: "to_board_notation b t = ?houses @ ?side"
    by (simp add: to_board_notation_def join_snoc comp_def)
  have g1: "rmatch houses_pattern (?houses @ ?side) = [?side]"
    using rmatch_houses [OF assms(2), of ?side] assms(1)
    by (simp add: houses_pattern_times)
  have g2: "rmatch side_pattern ?side = [[]]"
    by (simp add: side_pattern_def)
  have groups: "match_groups houses_pattern side_pattern Eos (?houses @ ?side) =
                Some (?houses, ?side)"
    by (simp add: match_groups_def g1 g2)
  have turn: "(if ''N'' = ?side then NORTH else SOUTH) = t"
    using assms(3) by (auto simp: SOUTH_def NORTH_def)
  have sp: "split CHR ''-'' ?houses = map str b @ [[]]"
    by (rule split_houses [OF assms(2)])
  have ie: "int_each (map str b) = Inr b"
    by (rule int_each_houses [OF assms(2)])
  show ?thesis
    unfolding to_position_def nota groups
    by (simp add: list.case_eq_if sp ie turn Let_def)
qed

text \<open>C8, for a board with one- and two-digit entries, 0 and 49 among them, NORTH to
  move.\<close>

theorem notation_round_trip_witness:
  "to_position (to_board_notation [0, 49, 10, 9, 1, 4, 5, 40, 3, 12, 0, 0, 0, 7] (- 1)) =
   Inr ([0, 49, 10, 9, 1, 4, 5, 40, 3, 12, 0, 0, 0, 7], - 1)"
  using notation_round_trip [of "[0, 49, 10, 9, 1, 4, 5, 40, 3, 12, 0, 0, 0, 7]" "- 1"]
  by (simp add: NORTH_def)

end
